theory Spec2Isabelle
  imports Complex_Main
begin

section \<open>Data model (prototype.py, lines 3-64)\<close>

text \<open>
  The program is a single Python file: a scanner written inline in \<open>main\<close>, a recursive
  descent parser over a token list and an index, and the method \<open>Expr.evaluate\<close>.
  Exceptions are values of the type \<open>error\<close>; a computation that may raise returns
  \<open>error + 'a\<close> with \<open>Inl\<close> for the exception.
\<close>

datatype TokenType = PLUS | MINUS | ASTERISK | FSLASH | LBRACKET | RBRACKET | NUM | DOT

text \<open>
  \<open>ValueError\<close> carries the message given at the \<open>raise\<close>; the bare \<open>raise ValueError\<close> of
  the scanner (line 179) has the empty message. The other constructors are the exceptions
  that the Python runtime raises by itself: a list index out of range, \<open>float(None)\<close>, the
  call of a method that a \<open>Token\<close> does not have, a float division by zero, and a call
  for which the interpreter has no stack frame left.
\<close>

datatype error =
  ValueError string | IndexError | TypeError | AttributeError | ZeroDivisionError | RecursionError

text \<open>\<open>Token(ttype, value=None, length=1)\<close> with its three getters.\<close>

datatype Token = Token (get_ttype: TokenType) (get_value: "string option") (get_length: nat)

text \<open>
  The parser returns either a \<open>Token\<close> (a number) or an \<open>Expr(left, op, right)\<close> whose
  children are again one of the two; \<open>Leaf\<close> is the first case.
\<close>

datatype node = Leaf Token | Expr node Token node

section \<open>Python floats\<close>

text \<open>
  A Python \<open>float\<close> is an IEEE 754 binary64 value. A finite one is kept as its sign bit
  (\<open>True\<close> for negative, so that \<open>-0.0\<close> is \<open>Finite True 0\<close>) and its magnitude, a rational
  that is a multiple of a power of two; the infinities carry their sign. Every operation
  computes the exact rational result and rounds it to the nearest representable value,
  ties to even, as the hardware does.
\<close>

datatype pyfloat = Finite bool rat | Infinity bool | NaN

definition pow2 :: "int \<Rightarrow> rat" where
  "pow2 e = (if 0 \<le> e then of_int (2 ^ nat e) else 1 / of_int (2 ^ nat (- e)))"

fun bit_length :: "nat \<Rightarrow> nat" where
  "bit_length n = (if n = 0 then 0 else Suc (bit_length (n div 2)))"

declare bit_length.simps [simp del]

text \<open>
  The binary exponent of a positive rational \<open>q\<close>: the \<open>e\<close> with \<open>2^e \<le> q < 2^(e+1)\<close>.
  For \<open>q \<ge> 1\<close> it is one less than the bit length of the integer part of \<open>q\<close>; for
  \<open>q < 1\<close> it is \<open>-k\<close> for the least \<open>k\<close> with \<open>1/q \<le> 2^k\<close>.
\<close>

definition ilog2 :: "rat \<Rightarrow> int" where
  "ilog2 q =
     (if 1 \<le> q then int (bit_length (nat \<lfloor>q\<rfloor>)) - 1
      else - int (bit_length (nat (\<lceil>1 / q\<rceil> - 1))))"

definition round_half_even :: "rat \<Rightarrow> int" where
  "round_half_even x =
     (let f = \<lfloor>x\<rfloor>; d = x - of_int f
      in if d < 1 / 2 then f else if 1 / 2 < d then f + 1 else if even f then f else f + 1)"

text \<open>
  Rounding a magnitude \<open>q \<ge> 0\<close> with sign \<open>s\<close>. The exponent \<open>e\<close> is that of \<open>q\<close> but
  not below \<open>-1022\<close> (subnormal numbers share the spacing \<open>2^-1074\<close>), the significand
  \<open>n\<close> is \<open>q / 2^(e-52)\<close> rounded to an integer, at most \<open>2^53\<close>. The largest finite value
  is \<open>(2^53 - 1) * 2^971\<close>: an exponent above \<open>1023\<close>, or a significand that rounds up to
  \<open>2^53\<close> at exponent \<open>1023\<close>, gives an infinity.
\<close>

definition round_float :: "bool \<Rightarrow> rat \<Rightarrow> pyfloat" where
  "round_float s q =
     (if q = 0 then Finite s 0
      else let e = max (ilog2 q) (- 1022)
           in if 1023 < e then Infinity s
              else let n = round_half_even (q / pow2 (e - 52))
                   in if e = 1023 \<and> 2 ^ 53 \<le> n then Infinity s
                      else Finite s (of_int n * pow2 (e - 52)))"

definition signed :: "bool \<Rightarrow> rat \<Rightarrow> rat" where
  "signed s m = (if s then - m else m)"

fun float_add :: "pyfloat \<Rightarrow> pyfloat \<Rightarrow> pyfloat" where
  "float_add NaN _ = NaN"
| "float_add _ NaN = NaN"
| "float_add (Infinity s) (Infinity t) = (if s = t then Infinity s else NaN)"
| "float_add (Infinity s) (Finite _ _) = Infinity s"
| "float_add (Finite _ _) (Infinity t) = Infinity t"
| "float_add (Finite s m) (Finite t n) =
     (let v = signed s m + signed t n
      in if v = 0 then Finite (s \<and> t) 0 else round_float (v < 0) \<bar>v\<bar>)"

fun float_neg :: "pyfloat \<Rightarrow> pyfloat" where
  "float_neg NaN = NaN"
| "float_neg (Infinity s) = Infinity (\<not> s)"
| "float_neg (Finite s m) = Finite (\<not> s) m"

definition float_sub :: "pyfloat \<Rightarrow> pyfloat \<Rightarrow> pyfloat" where
  "float_sub x y = float_add x (float_neg y)"

fun float_mul :: "pyfloat \<Rightarrow> pyfloat \<Rightarrow> pyfloat" where
  "float_mul NaN _ = NaN"
| "float_mul _ NaN = NaN"
| "float_mul (Infinity s) (Infinity t) = Infinity (s \<noteq> t)"
| "float_mul (Infinity s) (Finite t n) = (if n = 0 then NaN else Infinity (s \<noteq> t))"
| "float_mul (Finite s m) (Infinity t) = (if m = 0 then NaN else Infinity (s \<noteq> t))"
| "float_mul (Finite s m) (Finite t n) = round_float (s \<noteq> t) (m * n)"

text \<open>
  \<open>left_value / right_value\<close>: Python tests the divisor against zero first and raises
  \<open>ZeroDivisionError\<close> for \<open>0.0\<close> and \<open>-0.0\<close> alike; otherwise the quotient is IEEE's.
\<close>

fun float_truediv :: "pyfloat \<Rightarrow> pyfloat \<Rightarrow> error + pyfloat" where
  "float_truediv x (Finite t n) =
     (if n = 0 then Inl ZeroDivisionError
      else case x of
        NaN \<Rightarrow> Inr NaN
      | Infinity s \<Rightarrow> Inr (Infinity (s \<noteq> t))
      | Finite s m \<Rightarrow> Inr (round_float (s \<noteq> t) (m / n)))"
| "float_truediv x NaN = Inr NaN"
| "float_truediv x (Infinity t) =
     (case x of
        NaN \<Rightarrow> Inr NaN
      | Infinity s \<Rightarrow> Inr NaN
      | Finite s m \<Rightarrow> Inr (Finite (s \<noteq> t) 0))"

definition is_digit :: "char \<Rightarrow> bool" where
  "is_digit c = (c \<in> set ''0123456789'')"

definition digit_value :: "char \<Rightarrow> nat" where
  "digit_value c = of_char c - 48"

definition digits_value :: "string \<Rightarrow> nat" where
  "digits_value ds = foldl (\<lambda>acc c. 10 * acc + digit_value c) 0 ds"

text \<open>
  \<open>float(value)\<close> for the value of a token. \<open>float(None)\<close> raises \<open>TypeError\<close>. Of the
  strings Python accepts, the model covers the plain decimal numerals (digits with at
  most one point and at least one digit), which are correctly rounded; these include
  every string that the scanner stores in a \<open>NUM\<close> token. Any other string is rejected
  with \<open>ValueError\<close>, as Python rejects a string that is no number; signs, exponents,
  underscores, surrounding blanks and the names \<open>inf\<close> and \<open>nan\<close>, which Python would
  accept, never occur in a scanned token and are not modelled.
\<close>

definition py_float :: "string option \<Rightarrow> error + pyfloat" where
  "py_float v =
     (case v of
        None \<Rightarrow> Inl TypeError
      | Some s \<Rightarrow>
          let ip = takeWhile is_digit s; rest = dropWhile is_digit s
          in if rest = [] then
               (if ip = [] then Inl (ValueError ''could not convert string to float'')
                else Inr (round_float False (of_nat (digits_value ip))))
             else if hd rest = CHR ''.'' \<and> list_all is_digit (tl rest) \<and> (ip \<noteq> [] \<or> tl rest \<noteq> [])
             then Inr (round_float False
                        (of_nat (digits_value (ip @ tl rest)) / 10 ^ length (tl rest)))
             else Inl (ValueError ''could not convert string to float''))"

section \<open>Evaluation (lines 66-79)\<close>

text \<open>
  \<open>evaluate\<close> is a method of \<open>Expr\<close> only. A child that is an \<open>Expr\<close> is evaluated
  recursively and a child that is a \<open>Token\<close> is converted with \<open>float\<close>
  (the two \<open>isinstance\<close> tests); the left operand is computed before the right one.
  Calling \<open>evaluate\<close> on a \<open>Token\<close>, as line 192 does when the parser returned a single
  number, fails with \<open>AttributeError\<close>: the class has no such method.

  This is the method as long as the interpreter's stack suffices. It uses one frame for
  each level of the tree; \<open>evaluate_limited\<close> in the section on the recursion limit is the
  method under a bound on the frames, where it can raise \<open>RecursionError\<close>.
\<close>

fun evaluate :: "node \<Rightarrow> error + pyfloat" where
  "evaluate (Leaf t) = Inl AttributeError"
| "evaluate (Expr left op right) =
     (case (case left of Expr _ _ _ \<Rightarrow> evaluate left | Leaf t \<Rightarrow> py_float (get_value t)) of
        Inl e \<Rightarrow> Inl e
      | Inr left_value \<Rightarrow>
          (case (case right of Expr _ _ _ \<Rightarrow> evaluate right | Leaf t \<Rightarrow> py_float (get_value t)) of
             Inl e \<Rightarrow> Inl e
           | Inr right_value \<Rightarrow>
               (case get_ttype op of
                  PLUS \<Rightarrow> Inr (float_add left_value right_value)
                | MINUS \<Rightarrow> Inr (float_sub left_value right_value)
                | ASTERISK \<Rightarrow> Inr (float_mul left_value right_value)
                | FSLASH \<Rightarrow> float_truediv left_value right_value
                | _ \<Rightarrow> Inl (ValueError ''Unknown operator''))))"

section \<open>Parser (lines 81-120)\<close>

text \<open>
  The three parsing functions call each other and continue from the index that the callee
  returned, so no argument of theirs gets smaller syntactically. Each function takes a
  fuel argument that every call decrements; \<open>None\<close> means that the fuel ran out, and
  \<open>Some\<close> holds what the Python function does: \<open>Inl\<close> of the exception raised, or \<open>Inr\<close>
  of the pair it returns. The two \<open>while\<close> loops are the functions \<open>expression_loop\<close>
  and \<open>term_loop\<close>, whose state is \<open>left\<close> and \<open>cur\<close>. The section on termination shows
  that \<open>3 * (len(tokens) - cur) + 3\<close> units of fuel are always enough and that more fuel
  never changes a result.

  The variable \<open>curr\<close> of the source is written \<open>cur\<close> (HOL has a constant \<open>curr\<close>).
  \<open>tokens[cur]\<close> in \<open>parse_factor\<close> is not guarded and raises \<open>IndexError\<close> at the end of
  the list (\<open>cur\<close> is never negative).

  These are the functions as long as the interpreter's stack suffices. They use three
  frames for each level of brackets; the functions with the suffix \<open>limited\<close> in the
  section on the recursion limit are the parser under a bound on the frames.
\<close>

definition consume_token :: "Token list \<Rightarrow> nat \<Rightarrow> TokenType \<Rightarrow> string \<Rightarrow> error + nat" where
  "consume_token tokens cur ttype msg =
     (if cur < length tokens \<and> get_ttype (tokens ! cur) = ttype then Inr (cur + 1)
      else Inl (ValueError msg))"

function parse_expression_fuel :: "nat \<Rightarrow> Token list \<Rightarrow> nat \<Rightarrow> (error + node \<times> nat) option"
  and expression_loop :: "nat \<Rightarrow> Token list \<Rightarrow> node \<Rightarrow> nat \<Rightarrow> (error + node \<times> nat) option"
  and parse_term_fuel :: "nat \<Rightarrow> Token list \<Rightarrow> nat \<Rightarrow> (error + node \<times> nat) option"
  and term_loop :: "nat \<Rightarrow> Token list \<Rightarrow> node \<Rightarrow> nat \<Rightarrow> (error + node \<times> nat) option"
  and parse_factor_fuel :: "nat \<Rightarrow> Token list \<Rightarrow> nat \<Rightarrow> (error + node \<times> nat) option"
where
  "parse_expression_fuel 0 tokens cur = None"
| "parse_expression_fuel (Suc fuel) tokens cur =
     (case parse_term_fuel fuel tokens cur of
        None \<Rightarrow> None
      | Some (Inl e) \<Rightarrow> Some (Inl e)
      | Some (Inr (left, cur')) \<Rightarrow> expression_loop fuel tokens left cur')"
| "expression_loop 0 tokens left cur = None"
| "expression_loop (Suc fuel) tokens left cur =
     (if cur < length tokens \<and> get_ttype (tokens ! cur) \<in> {PLUS, MINUS} then
        (case parse_term_fuel fuel tokens (cur + 1) of
           None \<Rightarrow> None
         | Some (Inl e) \<Rightarrow> Some (Inl e)
         | Some (Inr (right, cur')) \<Rightarrow>
             expression_loop fuel tokens (Expr left (tokens ! cur) right) cur')
      else Some (Inr (left, cur)))"
| "parse_term_fuel 0 tokens cur = None"
| "parse_term_fuel (Suc fuel) tokens cur =
     (case parse_factor_fuel fuel tokens cur of
        None \<Rightarrow> None
      | Some (Inl e) \<Rightarrow> Some (Inl e)
      | Some (Inr (left, cur')) \<Rightarrow> term_loop fuel tokens left cur')"
| "term_loop 0 tokens left cur = None"
| "term_loop (Suc fuel) tokens left cur =
     (if cur < length tokens \<and> get_ttype (tokens ! cur) \<in> {ASTERISK, FSLASH} then
        (case parse_factor_fuel fuel tokens (cur + 1) of
           None \<Rightarrow> None
         | Some (Inl e) \<Rightarrow> Some (Inl e)
         | Some (Inr (right, cur')) \<Rightarrow>
             term_loop fuel tokens (Expr left (tokens ! cur) right) cur')
      else Some (Inr (left, cur)))"
| "parse_factor_fuel 0 tokens cur = None"
| "parse_factor_fuel (Suc fuel) tokens cur =
     (if length tokens \<le> cur then Some (Inl IndexError)
      else let token = tokens ! cur in
        if get_ttype token = NUM then Some (Inr (Leaf token, cur + 1))
        else if get_ttype token = LBRACKET then
          (case parse_expression_fuel fuel tokens (cur + 1) of
             None \<Rightarrow> None
           | Some (Inl e) \<Rightarrow> Some (Inl e)
           | Some (Inr (expr, cur')) \<Rightarrow>
               (case consume_token tokens cur' RBRACKET ''Expected closing bracket'' of
                  Inl e \<Rightarrow> Some (Inl e)
                | Inr cur'' \<Rightarrow> Some (Inr (expr, cur''))))
        else Some (Inl (ValueError ''Unexpected token'')))"
  by pat_completeness auto
termination
  by (relation "measure (\<lambda>x. case x of
        Inl (Inl (fuel, _, _)) \<Rightarrow> fuel
      | Inl (Inr (fuel, _, _, _)) \<Rightarrow> fuel
      | Inr (Inl (fuel, _, _)) \<Rightarrow> fuel
      | Inr (Inr (Inl (fuel, _, _, _))) \<Rightarrow> fuel
      | Inr (Inr (Inr (fuel, _, _))) \<Rightarrow> fuel)") auto

text \<open>The Python functions: the fuel versions run with the fuel that is always enough.\<close>

definition enough :: "Token list \<Rightarrow> nat \<Rightarrow> nat" where
  "enough tokens cur = 3 * (length tokens - cur) + 3"

definition parse_expression :: "Token list \<Rightarrow> nat \<Rightarrow> error + node \<times> nat" where
  "parse_expression tokens cur = the (parse_expression_fuel (enough tokens cur) tokens cur)"

definition parse_term :: "Token list \<Rightarrow> nat \<Rightarrow> error + node \<times> nat" where
  "parse_term tokens cur = the (parse_term_fuel (enough tokens cur) tokens cur)"

definition parse_factor :: "Token list \<Rightarrow> nat \<Rightarrow> error + node \<times> nat" where
  "parse_factor tokens cur = the (parse_factor_fuel (enough tokens cur) tokens cur)"

section \<open>Scanner (lines 122-180)\<close>

text \<open>
  \<open>scan_num\<close> has two loops. The first (lines 124-128) moves \<open>cur\<close> to the last digit of
  the integer part; \<open>cur < len(source) - 1\<close> is \<open>cur + 1 < len(source)\<close>. The second
  (lines 134-140), entered after a decimal point, moves over the digits of the fraction,
  raises at a second point and returns at any other character; when it runs to the end of
  the source the function returns by line 142.
\<close>

function scan_num_digits :: "string \<Rightarrow> nat \<Rightarrow> nat" where
  "scan_num_digits source cur =
     (if cur + 1 < length source \<and> is_digit (source ! (cur + 1))
      then scan_num_digits source (cur + 1) else cur)"
  by pat_completeness auto
termination
  by (relation "measure (\<lambda>(source, cur). length source - cur)") auto

declare scan_num_digits.simps [simp del]

function scan_num_fraction :: "string \<Rightarrow> nat \<Rightarrow> error + nat" where
  "scan_num_fraction source cur =
     (if cur + 1 < length source then
        (if is_digit (source ! (cur + 1)) then scan_num_fraction source (cur + 1)
         else if source ! (cur + 1) = CHR ''.'' then
           Inl (ValueError ''Number has two decimal points'')
         else Inr cur)
      else Inr cur)"
  by pat_completeness auto
termination
  by (relation "measure (\<lambda>(source, cur). length source - cur)") auto

declare scan_num_fraction.simps [simp del]

definition scan_num :: "string \<Rightarrow> nat \<Rightarrow> error + nat" where
  "scan_num source cur =
     (let cur = scan_num_digits source cur
      in if cur + 1 < length source \<and> source ! (cur + 1) = CHR ''.''
         then scan_num_fraction source (cur + 1)
         else Inr cur)"

lemma scan_num_digits_ge: "cur \<le> scan_num_digits source cur"
proof (induction source cur rule: scan_num_digits.induct)
  case (1 source cur)
  show ?case
  proof (cases "cur + 1 < length source \<and> is_digit (source ! (cur + 1))")
    case True
    with 1 have "cur + 1 \<le> scan_num_digits source (cur + 1)" by simp
    with True show ?thesis by (simp add: scan_num_digits.simps [of source cur])
  next
    case False
    then show ?thesis by (auto simp: scan_num_digits.simps [of source cur])
  qed
qed

lemma scan_num_fraction_ge: "scan_num_fraction source cur = Inr c \<Longrightarrow> cur \<le> c"
proof (induction source cur rule: scan_num_fraction.induct)
  case (1 source cur)
  show ?case
  proof (cases "cur + 1 < length source \<and> is_digit (source ! (cur + 1))")
    case True
    with "1.prems" have "scan_num_fraction source (cur + 1) = Inr c"
      by (simp add: scan_num_fraction.simps [of source cur])
    with True "1.IH" have "cur + 1 \<le> c" by simp
    then show ?thesis by simp
  next
    case False
    with "1.prems" show ?thesis
      by (simp add: scan_num_fraction.simps [of source cur] split: if_splits)
  qed
qed

lemma scan_num_ge: "scan_num source cur = Inr c \<Longrightarrow> cur \<le> c"
proof -
  assume r: "scan_num source cur = Inr c"
  let ?d = "scan_num_digits source cur"
  have d: "cur \<le> ?d" by (rule scan_num_digits_ge)
  show ?thesis
  proof (cases "?d + 1 < length source \<and> source ! (?d + 1) = CHR ''.''")
    case True
    with r have "scan_num_fraction source (?d + 1) = Inr c" by (simp add: scan_num_def)
    then have "?d + 1 \<le> c" by (rule scan_num_fraction_ge)
    with d show ?thesis by simp
  next
    case False
    with r have "c = ?d" by (auto simp: scan_num_def)
    with d show ?thesis by simp
  qed
qed

text \<open>
  The scanning loop of \<open>main\<close> (lines 156-180): \<open>cur\<close> runs over the source and \<open>tokens\<close>
  collects the result. A number token holds \<open>source[initial:cur + 1]\<close> and its length; a
  blank adds nothing; any other character raises \<open>ValueError\<close> without a message.
\<close>

function scan_loop :: "string \<Rightarrow> nat \<Rightarrow> Token list \<Rightarrow> error + Token list" where
  "scan_loop source cur tokens =
     (if cur < length source then
        (let c = source ! cur in
         if is_digit c then
           (case scan_num source cur of
              Inl e \<Rightarrow> Inl e
            | Inr cur' \<Rightarrow>
                scan_loop source (cur' + 1)
                  (tokens @ [Token NUM (Some (take (cur' + 1 - cur) (drop cur source)))
                               (cur' - cur + 1)]))
         else if c = CHR ''+'' then scan_loop source (cur + 1) (tokens @ [Token PLUS None 1])
         else if c = CHR ''-'' then scan_loop source (cur + 1) (tokens @ [Token MINUS None 1])
         else if c = CHR ''*'' then scan_loop source (cur + 1) (tokens @ [Token ASTERISK None 1])
         else if c = CHR ''/'' then scan_loop source (cur + 1) (tokens @ [Token FSLASH None 1])
         else if c = CHR ''('' then scan_loop source (cur + 1) (tokens @ [Token LBRACKET None 1])
         else if c = CHR '')'' then scan_loop source (cur + 1) (tokens @ [Token RBRACKET None 1])
         else if c = CHR ''.'' then scan_loop source (cur + 1) (tokens @ [Token DOT None 1])
         else if c = CHR '' '' then scan_loop source (cur + 1) tokens
         else Inl (ValueError []))
      else Inr tokens)"
  by pat_completeness auto
termination
proof (relation "measure (\<lambda>(source, cur, tokens). length source - cur)")
  show "wf (measure (\<lambda>(source, cur, tokens). length source - cur))" by simp
next
  fix source :: string and cur :: nat and tokens :: "Token list" and c cur'
  assume "cur < length source" and "scan_num source cur = Inr cur'"
  then have "cur \<le> cur'" by (simp add: scan_num_ge)
  with \<open>cur < length source\<close>
  show "((source, cur' + 1, tokens @ [Token NUM (Some (take (cur' + 1 - cur) (drop cur source)))
            (cur' - cur + 1)]), source, cur, tokens)
          \<in> measure (\<lambda>(source, cur, tokens). length source - cur)"
    by simp
qed auto

declare scan_loop.simps [simp del]

definition scan :: "string \<Rightarrow> error + Token list" where
  "scan source = scan_loop source 0 []"

section \<open>The pipeline of \<open>main\<close> (lines 183-193)\<close>

text \<open>
  Lines 183-188: \<open>tokens[0]\<close> raises \<open>IndexError\<close> on an empty list. If the first token is
  a left bracket, the last one has to be a right bracket and the slice \<open>tokens[1:-1]\<close> is
  parsed in place of the list; otherwise \<open>ValueError\<close> is raised. The index that
  \<open>parse_expression\<close> returns is dropped.
\<close>

definition parse :: "Token list \<Rightarrow> error + node" where
  "parse tokens =
     (if tokens = [] then Inl IndexError
      else if get_ttype (tokens ! 0) = LBRACKET then
        (if get_ttype (last tokens) = RBRACKET then
           map_sum id fst (parse_expression (butlast (tl tokens)) 0)
         else Inl (ValueError ''Expected closing bracket''))
      else map_sum id fst (parse_expression tokens 0))"

text \<open>
  \<open>main\<close> without its input and output, as long as the interpreter's stack suffices: the
  source string is the argument and the value printed as \<open>Result\<close> is returned.
  \<open>print(ast)\<close> computes nothing that is used later; it walks the tree with
  \<open>Expr.__repr__\<close>, one frame for each level, and can fail only for want of frames.
  \<open>main_limited\<close> in the section on the recursion limit is \<open>main\<close> under a bound on the
  frames, with line 189 in it.
\<close>

definition main :: "string \<Rightarrow> error + pyfloat" where
  "main source =
     (case scan source of
        Inl e \<Rightarrow> Inl e
      | Inr tokens \<Rightarrow>
          (case parse tokens of
             Inl e \<Rightarrow> Inl e
           | Inr ast \<Rightarrow> evaluate ast))"

section \<open>Termination of the parser\<close>

text \<open>
  More fuel never changes a result; a successful call moves the index forward and not
  beyond the end of the list; and the fuel \<open>enough tokens cur\<close> always suffices. Hence the
  recursion of the Python parser terminates on every token list, and the result of a
  fuel version, at any fuel that gives one, is the result of the Python function.
\<close>

lemma fuel_mono_all:
  "\<forall>m ts l c r. n \<le> m \<longrightarrow>
     (parse_expression_fuel n ts c = Some r \<longrightarrow> parse_expression_fuel m ts c = Some r) \<and>
     (expression_loop n ts l c = Some r \<longrightarrow> expression_loop m ts l c = Some r) \<and>
     (parse_term_fuel n ts c = Some r \<longrightarrow> parse_term_fuel m ts c = Some r) \<and>
     (term_loop n ts l c = Some r \<longrightarrow> term_loop m ts l c = Some r) \<and>
     (parse_factor_fuel n ts c = Some r \<longrightarrow> parse_factor_fuel m ts c = Some r)"
proof (induction n)
  case 0
  show ?case by simp
next
  case (Suc n)
  show ?case
  proof (intro allI impI)
    fix m ts l c r
    assume "Suc n \<le> m"
    then obtain m' where m: "m = Suc m'" and le: "n \<le> m'" by (cases m) auto
    have pe: "\<And>ts c r. parse_expression_fuel n ts c = Some r \<Longrightarrow> parse_expression_fuel m' ts c = Some r"
      using Suc.IH le by blast
    have el: "\<And>ts l c r. expression_loop n ts l c = Some r \<Longrightarrow> expression_loop m' ts l c = Some r"
      using Suc.IH le by blast
    have pt: "\<And>ts c r. parse_term_fuel n ts c = Some r \<Longrightarrow> parse_term_fuel m' ts c = Some r"
      using Suc.IH le by blast
    have tl: "\<And>ts l c r. term_loop n ts l c = Some r \<Longrightarrow> term_loop m' ts l c = Some r"
      using Suc.IH le by blast
    have pf: "\<And>ts c r. parse_factor_fuel n ts c = Some r \<Longrightarrow> parse_factor_fuel m' ts c = Some r"
      using Suc.IH le by blast
    have 1: "parse_expression_fuel (Suc n) ts c = Some r \<longrightarrow> parse_expression_fuel m ts c = Some r"
      unfolding m by (auto split: option.splits sum.splits dest!: pt el)
    have 2: "expression_loop (Suc n) ts l c = Some r \<longrightarrow> expression_loop m ts l c = Some r"
      unfolding m by (auto split: option.splits sum.splits if_splits dest!: pt el)
    have 3: "parse_term_fuel (Suc n) ts c = Some r \<longrightarrow> parse_term_fuel m ts c = Some r"
      unfolding m by (auto split: option.splits sum.splits dest!: pf tl)
    have 4: "term_loop (Suc n) ts l c = Some r \<longrightarrow> term_loop m ts l c = Some r"
      unfolding m by (auto split: option.splits sum.splits if_splits dest!: pf tl)
    have 5: "parse_factor_fuel (Suc n) ts c = Some r \<longrightarrow> parse_factor_fuel m ts c = Some r"
      unfolding m by (auto simp: Let_def split: option.splits sum.splits if_splits dest!: pe)
    from 1 2 3 4 5
    show "(parse_expression_fuel (Suc n) ts c = Some r \<longrightarrow> parse_expression_fuel m ts c = Some r) \<and>
     (expression_loop (Suc n) ts l c = Some r \<longrightarrow> expression_loop m ts l c = Some r) \<and>
     (parse_term_fuel (Suc n) ts c = Some r \<longrightarrow> parse_term_fuel m ts c = Some r) \<and>
     (term_loop (Suc n) ts l c = Some r \<longrightarrow> term_loop m ts l c = Some r) \<and>
     (parse_factor_fuel (Suc n) ts c = Some r \<longrightarrow> parse_factor_fuel m ts c = Some r)"
      by blast
  qed
qed

lemma progress:
  "parse_expression_fuel n ts c = Some (Inr (t, c')) \<Longrightarrow> c < c' \<and> c' \<le> length ts"
  "expression_loop n ts l c = Some (Inr (t, c')) \<Longrightarrow> c \<le> c' \<and> (c \<le> length ts \<longrightarrow> c' \<le> length ts)"
  "parse_term_fuel n ts c = Some (Inr (t, c')) \<Longrightarrow> c < c' \<and> c' \<le> length ts"
  "term_loop n ts l c = Some (Inr (t, c')) \<Longrightarrow> c \<le> c' \<and> (c \<le> length ts \<longrightarrow> c' \<le> length ts)"
  "parse_factor_fuel n ts c = Some (Inr (t, c')) \<Longrightarrow> c < c' \<and> c' \<le> length ts"
proof (induction n ts c and n ts l c and n ts c and n ts l c and n ts c
    arbitrary: t c' and t c' and t c' and t c' and t c' rule: parse_expression_fuel_expression_loop_parse_term_fuel_term_loop_parse_factor_fuel.induct)
  case (1 tokens cur)
  then show ?case by simp
next
  case (2 fuel tokens cur)
  then show ?case by (fastforce split: option.splits sum.splits)
next
  case (3 tokens left cur)
  then show ?case by simp
next
  case (4 fuel tokens left cur)
  then show ?case by (fastforce split: option.splits sum.splits if_splits)
next
  case (5 tokens cur)
  then show ?case by simp
next
  case (6 fuel tokens cur)
  then show ?case by (fastforce split: option.splits sum.splits)
next
  case (7 tokens left cur)
  then show ?case by simp
next
  case (8 fuel tokens left cur)
  then show ?case by (fastforce split: option.splits sum.splits if_splits)
next
  case (9 tokens cur)
  then show ?case by simp
next
  case (10 fuel tokens cur)
  then show ?case
    by (fastforce simp: Let_def consume_token_def split: option.splits sum.splits if_splits)
qed


lemma fuel_enough_all:
  "\<forall>ts l c.
     (3 * (length ts - c) + 3 \<le> n \<longrightarrow> parse_expression_fuel n ts c \<noteq> None) \<and>
     (3 * (length ts - c) + 1 \<le> n \<longrightarrow> expression_loop n ts l c \<noteq> None) \<and>
     (3 * (length ts - c) + 2 \<le> n \<longrightarrow> parse_term_fuel n ts c \<noteq> None) \<and>
     (3 * (length ts - c) + 1 \<le> n \<longrightarrow> term_loop n ts l c \<noteq> None) \<and>
     (3 * (length ts - c) + 1 \<le> n \<longrightarrow> parse_factor_fuel n ts c \<noteq> None)"
proof (induction n)
  case 0
  show ?case by simp
next
  case (Suc n)
  have pe: "\<And>ts c. 3 * (length ts - c) + 3 \<le> n \<Longrightarrow> parse_expression_fuel n ts c \<noteq> None"
    using Suc.IH by blast
  have el: "\<And>ts l c. 3 * (length ts - c) + 1 \<le> n \<Longrightarrow> expression_loop n ts l c \<noteq> None"
    using Suc.IH by blast
  have pt: "\<And>ts c. 3 * (length ts - c) + 2 \<le> n \<Longrightarrow> parse_term_fuel n ts c \<noteq> None"
    using Suc.IH by blast
  have tl: "\<And>ts l c. 3 * (length ts - c) + 1 \<le> n \<Longrightarrow> term_loop n ts l c \<noteq> None"
    using Suc.IH by blast
  have pf: "\<And>ts c. 3 * (length ts - c) + 1 \<le> n \<Longrightarrow> parse_factor_fuel n ts c \<noteq> None"
    using Suc.IH by blast
  show ?case
  proof (intro allI conjI impI)
    fix ts :: "Token list" and c :: nat
    assume b: "3 * (length ts - c) + 3 \<le> Suc n"
    then have "parse_term_fuel n ts c \<noteq> None" by (intro pt) simp
    then obtain x where x: "parse_term_fuel n ts c = Some x" by blast
    show "parse_expression_fuel (Suc n) ts c \<noteq> None"
    proof (cases x)
      case (Inl e)
      with x show ?thesis by simp
    next
      case (Inr p)
      obtain left c' where p: "p = (left, c')" by (cases p)
      from x Inr p have "c < c' \<and> c' \<le> length ts" by (simp add: progress)
      with b have "3 * (length ts - c') + 1 \<le> n" by arith
      then have "expression_loop n ts left c' \<noteq> None" by (rule el)
      with x Inr p show ?thesis by simp
    qed
  next
    fix ts :: "Token list" and l :: node and c :: nat
    assume b: "3 * (length ts - c) + 1 \<le> Suc n"
    show "expression_loop (Suc n) ts l c \<noteq> None"
    proof (cases "c < length ts \<and> get_ttype (ts ! c) \<in> {PLUS, MINUS}")
      case False
      then show ?thesis by auto
    next
      case True
      with b have "3 * (length ts - (c + 1)) + 2 \<le> n" by arith
      then have "parse_term_fuel n ts (c + 1) \<noteq> None" by (rule pt)
      then obtain x where x: "parse_term_fuel n ts (c + 1) = Some x" by blast
      show ?thesis
      proof (cases x)
        case (Inl e)
        with x True show ?thesis by simp
      next
        case (Inr p)
        obtain right c' where p: "p = (right, c')" by (cases p)
        from x Inr p have "c + 1 < c' \<and> c' \<le> length ts" by (simp add: progress)
        with b have "3 * (length ts - c') + 1 \<le> n" by arith
        then have "expression_loop n ts (Expr l (ts ! c) right) c' \<noteq> None" by (rule el)
        with x Inr p True show ?thesis by simp
      qed
    qed
  next
    fix ts :: "Token list" and c :: nat
    assume b: "3 * (length ts - c) + 2 \<le> Suc n"
    then have "parse_factor_fuel n ts c \<noteq> None" by (intro pf) simp
    then obtain x where x: "parse_factor_fuel n ts c = Some x" by blast
    show "parse_term_fuel (Suc n) ts c \<noteq> None"
    proof (cases x)
      case (Inl e)
      with x show ?thesis by simp
    next
      case (Inr p)
      obtain left c' where p: "p = (left, c')" by (cases p)
      from x Inr p have "c < c' \<and> c' \<le> length ts" by (simp add: progress)
      with b have "3 * (length ts - c') + 1 \<le> n" by arith
      then have "term_loop n ts left c' \<noteq> None" by (rule tl)
      with x Inr p show ?thesis by simp
    qed
  next
    fix ts :: "Token list" and l :: node and c :: nat
    assume b: "3 * (length ts - c) + 1 \<le> Suc n"
    show "term_loop (Suc n) ts l c \<noteq> None"
    proof (cases "c < length ts \<and> get_ttype (ts ! c) \<in> {ASTERISK, FSLASH}")
      case False
      then show ?thesis by auto
    next
      case True
      with b have "3 * (length ts - (c + 1)) + 1 \<le> n" by arith
      then have "parse_factor_fuel n ts (c + 1) \<noteq> None" by (rule pf)
      then obtain x where x: "parse_factor_fuel n ts (c + 1) = Some x" by blast
      show ?thesis
      proof (cases x)
        case (Inl e)
        with x True show ?thesis by simp
      next
        case (Inr p)
        obtain right c' where p: "p = (right, c')" by (cases p)
        from x Inr p have "c + 1 < c' \<and> c' \<le> length ts" by (simp add: progress)
        with b have "3 * (length ts - c') + 1 \<le> n" by arith
        then have "term_loop n ts (Expr l (ts ! c) right) c' \<noteq> None" by (rule tl)
        with x Inr p True show ?thesis by simp
      qed
    qed
  next
    fix ts :: "Token list" and c :: nat
    assume b: "3 * (length ts - c) + 1 \<le> Suc n"
    show "parse_factor_fuel (Suc n) ts c \<noteq> None"
    proof (cases "c < length ts \<and> get_ttype (ts ! c) = LBRACKET")
      case False
      then show ?thesis by (auto simp: Let_def)
    next
      case True
      with b have "3 * (length ts - (c + 1)) + 3 \<le> n" by arith
      then have "parse_expression_fuel n ts (c + 1) \<noteq> None" by (rule pe)
      then obtain x where x: "parse_expression_fuel n ts (c + 1) = Some x" by blast
      with True show ?thesis
        by (auto simp: Let_def split: sum.splits)
    qed
  qed
qed

lemma parse_expression_fuel_mono:
  "parse_expression_fuel n ts c = Some r \<Longrightarrow> n \<le> m \<Longrightarrow> parse_expression_fuel m ts c = Some r"
  using fuel_mono_all [of n] by blast

lemma parse_term_fuel_mono:
  "parse_term_fuel n ts c = Some r \<Longrightarrow> n \<le> m \<Longrightarrow> parse_term_fuel m ts c = Some r"
  using fuel_mono_all [of n] by blast

lemma parse_factor_fuel_mono:
  "parse_factor_fuel n ts c = Some r \<Longrightarrow> n \<le> m \<Longrightarrow> parse_factor_fuel m ts c = Some r"
  using fuel_mono_all [of n] by blast

lemma expression_loop_mono:
  "expression_loop n ts l c = Some r \<Longrightarrow> n \<le> m \<Longrightarrow> expression_loop m ts l c = Some r"
  using fuel_mono_all [of n] by blast

lemma term_loop_mono:
  "term_loop n ts l c = Some r \<Longrightarrow> n \<le> m \<Longrightarrow> term_loop m ts l c = Some r"
  using fuel_mono_all [of n] by blast

lemma parse_expression_fuel_enough:
  "\<exists>r. parse_expression_fuel (enough ts c) ts c = Some r"
proof -
  have "3 * (length ts - c) + 3 \<le> enough ts c" by (simp add: enough_def)
  with fuel_enough_all [of "enough ts c"] have "parse_expression_fuel (enough ts c) ts c \<noteq> None"
    by blast
  then show ?thesis by blast
qed

lemma parse_term_fuel_enough:
  "\<exists>r. parse_term_fuel (enough ts c) ts c = Some r"
proof -
  have "3 * (length ts - c) + 2 \<le> enough ts c" by (simp add: enough_def)
  with fuel_enough_all [of "enough ts c"] have "parse_term_fuel (enough ts c) ts c \<noteq> None"
    by blast
  then show ?thesis by blast
qed

lemma parse_factor_fuel_enough:
  "\<exists>r. parse_factor_fuel (enough ts c) ts c = Some r"
proof -
  have "3 * (length ts - c) + 1 \<le> enough ts c" by (simp add: enough_def)
  with fuel_enough_all [of "enough ts c"] have "parse_factor_fuel (enough ts c) ts c \<noteq> None"
    by blast
  then show ?thesis by blast
qed

lemma parse_expression_fuel_result:
  "parse_expression_fuel n ts c = Some r \<Longrightarrow> parse_expression ts c = r"
proof -
  assume r: "parse_expression_fuel n ts c = Some r"
  obtain r' where r': "parse_expression_fuel (enough ts c) ts c = Some r'"
    using parse_expression_fuel_enough by blast
  have "parse_expression_fuel (max n (enough ts c)) ts c = Some r"
    by (rule parse_expression_fuel_mono [OF r]) simp
  moreover have "parse_expression_fuel (max n (enough ts c)) ts c = Some r'"
    by (rule parse_expression_fuel_mono [OF r']) simp
  ultimately have "r' = r" by simp
  with r' show ?thesis by (simp add: parse_expression_def)
qed

lemma parse_term_fuel_result:
  "parse_term_fuel n ts c = Some r \<Longrightarrow> parse_term ts c = r"
proof -
  assume r: "parse_term_fuel n ts c = Some r"
  obtain r' where r': "parse_term_fuel (enough ts c) ts c = Some r'"
    using parse_term_fuel_enough by blast
  have "parse_term_fuel (max n (enough ts c)) ts c = Some r"
    by (rule parse_term_fuel_mono [OF r]) simp
  moreover have "parse_term_fuel (max n (enough ts c)) ts c = Some r'"
    by (rule parse_term_fuel_mono [OF r']) simp
  ultimately have "r' = r" by simp
  with r' show ?thesis by (simp add: parse_term_def)
qed

lemma parse_factor_fuel_result:
  "parse_factor_fuel n ts c = Some r \<Longrightarrow> parse_factor ts c = r"
proof -
  assume r: "parse_factor_fuel n ts c = Some r"
  obtain r' where r': "parse_factor_fuel (enough ts c) ts c = Some r'"
    using parse_factor_fuel_enough by blast
  have "parse_factor_fuel (max n (enough ts c)) ts c = Some r"
    by (rule parse_factor_fuel_mono [OF r]) simp
  moreover have "parse_factor_fuel (max n (enough ts c)) ts c = Some r'"
    by (rule parse_factor_fuel_mono [OF r']) simp
  ultimately have "r' = r" by simp
  with r' show ?thesis by (simp add: parse_factor_def)
qed

text \<open>Conversely, what a Python function returns is what its fuel version computes.\<close>

lemma parse_expression_fuel_ex:
  "\<exists>n. parse_expression_fuel n ts c = Some (parse_expression ts c)"
  using parse_expression_fuel_enough [of ts c] by (auto simp: parse_expression_def)

lemma parse_term_fuel_ex:
  "\<exists>n. parse_term_fuel n ts c = Some (parse_term ts c)"
  using parse_term_fuel_enough [of ts c] by (auto simp: parse_term_def)

lemma parse_factor_fuel_ex:
  "\<exists>n. parse_factor_fuel n ts c = Some (parse_factor ts c)"
  using parse_factor_fuel_enough [of ts c] by (auto simp: parse_factor_def)


section \<open>Facts about the float model\<close>

text \<open>
  The bit length brackets its argument between two powers of two, and a positive integer
  below \<open>2^53\<close> is its own rounding: integer arithmetic in that range is exact.
\<close>

lemma bit_length_bounds: "0 < n \<Longrightarrow> 2 ^ (bit_length n - 1) \<le> n \<and> n < 2 ^ bit_length n"
proof (induction n rule: bit_length.induct)
  case (1 n)
  show ?case
  proof (cases "n div 2 = 0")
    case True
    with "1.prems" have "n = 1" by arith
    then show ?thesis by (simp add: bit_length.simps [of "Suc 0"] bit_length.simps [of 0])
  next
    case False
    with "1.prems" "1.IH"
    have IH: "2 ^ (bit_length (n div 2) - 1) \<le> n div 2 \<and> n div 2 < 2 ^ bit_length (n div 2)"
      by simp
    have pos: "0 < bit_length (n div 2)"
      using False by (simp add: bit_length.simps [of "n div 2"])
    have bl: "bit_length n = Suc (bit_length (n div 2))"
      using "1.prems" by (simp add: bit_length.simps [of n])
    from pos obtain j where j: "bit_length (n div 2) = Suc j" by (cases "bit_length (n div 2)") auto
    from IH j have "2 ^ j \<le> n div 2" and "n div 2 < 2 ^ Suc j" by simp_all
    then have "2 * 2 ^ j \<le> n" and "n < 2 * 2 ^ Suc j" by arith+
    with bl j show ?thesis by simp
  qed
qed

lemma round_half_even_of_int: "round_half_even (of_int k) = k"
  by (simp add: round_half_even_def)

lemma pow2_nonpos: "e \<le> 0 \<Longrightarrow> pow2 e = 1 / of_int (2 ^ nat (- e))"
  by (cases "e = 0") (simp_all add: pow2_def)

lemma round_float_int:
  assumes "0 < k" and "k < 2 ^ 53"
  shows "round_float s (of_int k) = Finite s (of_int k)"
proof -
  let ?b = "bit_length (nat k)"
  from assms(1) have npos: "0 < nat k" by simp
  from bit_length_bounds [OF npos] have lo: "2 ^ (?b - 1) \<le> nat k" and hi: "nat k < 2 ^ ?b"
    by simp_all
  have bpos: "0 < ?b" using npos by (simp add: bit_length.simps [of "nat k"])
  from assms(2) have k53: "nat k < 2 ^ 53"
    by (metis nat_less_numeral_power_cancel_iff)
  have lt: "(2::nat) ^ (?b - 1) < 2 ^ 53" using lo k53 by (rule le_less_trans)
  have "?b - 1 < 53" using power_less_imp_less_exp [OF _ lt] by simp
  with bpos have b53: "?b \<le> 53" by simp
  have q1: "(1::rat) \<le> of_int k" using assms(1) by simp
  have il: "ilog2 (of_int k) = int ?b - 1" using q1 by (simp add: ilog2_def)
  define e where "e = int ?b - 1"
  have e: "0 \<le> e" "e \<le> 52" using bpos b53 by (simp_all add: e_def)
  define d :: int where "d = 2 ^ nat (52 - e)"
  have dpos: "0 < d" by (simp add: d_def)
  have p: "pow2 (e - 52) = 1 / of_int d"
    using e pow2_nonpos [of "e - 52"] by (simp add: d_def)
  have quot: "(of_int k :: rat) / pow2 (e - 52) = of_int (k * d)" by (simp add: p)
  have undo: "(of_int (k * d) :: rat) * pow2 (e - 52) = of_int k"
    using dpos by (simp add: p)
  have k0: "(of_int k :: rat) \<noteq> 0" using assms(1) by simp
  have m: "max e (- 1022) = e" using e by simp
  show ?thesis
    unfolding round_float_def il e_def [symmetric] Let_def m quot round_half_even_of_int undo
    using k0 e by simp
qed

lemma round_float_numeral:
  "numeral w < (2::int) ^ 53 \<Longrightarrow> round_float s (numeral w) = Finite s (numeral w)"
  using round_float_int [of "numeral w" s] by simp

lemma py_float_digits:
  "s \<noteq> [] \<Longrightarrow> list_all is_digit s \<Longrightarrow>
   py_float (Some s) = Inr (round_float False (of_nat (digits_value s)))"
proof -
  assume ne: "s \<noteq> []" and all: "list_all is_digit s"
  from all have tw: "takeWhile is_digit s = s" and dw: "dropWhile is_digit s = []"
    by (simp_all add: list_all_iff)
  show ?thesis unfolding py_float_def option.case Let_def tw dw using ne by simp
qed

section \<open>Worked inputs\<close>

abbreviation num :: "string \<Rightarrow> Token" where
  "num s \<equiv> Token NUM (Some s) (length s)"

abbreviation sym :: "TokenType \<Rightarrow> Token" where
  "sym k \<equiv> Token k None 1"

lemmas eval_simps =
  py_float_digits is_digit_def digits_value_def digit_value_def round_float_numeral
  signed_def float_sub_def

lemma scan_2_plus_3_times_4:
  "scan ''2+3*4'' = Inr [num ''2'', sym PLUS, num ''3'', sym ASTERISK, num ''4'']"
  by code_simp

lemma parse_2_plus_3_times_4:
  "parse [num ''2'', sym PLUS, num ''3'', sym ASTERISK, num ''4''] =
     Inr (Expr (Leaf (num ''2'')) (sym PLUS)
            (Expr (Leaf (num ''3'')) (sym ASTERISK) (Leaf (num ''4''))))"
  by code_simp

text \<open>
  C4. Precedence: on the input \<open>2+3*4\<close> the pipeline returns \<open>14.0\<close>, the value of
  \<open>2+(3*4)\<close>, and not \<open>20.0\<close>.
\<close>

theorem precedence_2_plus_3_times_4:
  "main ''2+3*4'' = Inr (Finite False 14) \<and> main ''2+3*4'' \<noteq> Inr (Finite False 20)"
proof -
  have "main ''2+3*4'' = Inr (Finite False 14)"
    unfolding main_def scan_2_plus_3_times_4 sum.case parse_2_plus_3_times_4
    by (simp add: eval_simps)
  then show ?thesis by simp
qed

lemma scan_10_minus_3_minus_2:
  "scan ''10-3-2'' = Inr [num ''10'', sym MINUS, num ''3'', sym MINUS, num ''2'']"
  by code_simp

lemma parse_10_minus_3_minus_2:
  "parse [num ''10'', sym MINUS, num ''3'', sym MINUS, num ''2''] =
     Inr (Expr (Expr (Leaf (num ''10'')) (sym MINUS) (Leaf (num ''3''))) (sym MINUS)
            (Leaf (num ''2'')))"
  by code_simp

text \<open>
  C5. Left associativity: on the input \<open>10-3-2\<close> the parser builds the tree of
  \<open>(10-3)-2\<close> and the pipeline returns \<open>5.0\<close>.
\<close>

theorem left_assoc_10_minus_3_minus_2:
  "main ''10-3-2'' = Inr (Finite False 5) \<and>
   parse [num ''10'', sym MINUS, num ''3'', sym MINUS, num ''2''] =
     Inr (Expr (Expr (Leaf (num ''10'')) (sym MINUS) (Leaf (num ''3''))) (sym MINUS)
            (Leaf (num ''2'')))"
proof -
  have "main ''10-3-2'' = Inr (Finite False 5)"
    unfolding main_def scan_10_minus_3_minus_2 sum.case parse_10_minus_3_minus_2
    by (simp add: eval_simps)
  with parse_10_minus_3_minus_2 show ?thesis by simp
qed

lemma scan_grouping:
  "scan ''(2+3)*4'' =
     Inr [sym LBRACKET, num ''2'', sym PLUS, num ''3'', sym RBRACKET, sym ASTERISK, num ''4'']"
  by code_simp

text \<open>
  C1. Grouping: the claim is that the input \<open>(2+3)*4\<close> evaluates to \<open>20.0\<close>. The code
  raises instead: the first token is a left bracket and the last one is the number
  \<open>4\<close>, so line 187 raises \<open>ValueError("Expected closing bracket")\<close> before the
  parser is called.
\<close>

theorem grouping_raises:
  "main ''(2+3)*4'' = Inl (ValueError ''Expected closing bracket'')"
  unfolding main_def scan_grouping sum.case
  by (simp add: parse_def)

lemma scan_grouping_right:
  "scan ''4*(2+3)'' =
     Inr [num ''4'', sym ASTERISK, sym LBRACKET, num ''2'', sym PLUS, num ''3'', sym RBRACKET]"
  by code_simp

lemma parse_grouping_right:
  "parse [num ''4'', sym ASTERISK, sym LBRACKET, num ''2'', sym PLUS, num ''3'', sym RBRACKET] =
     Inr (Expr (Leaf (num ''4'')) (sym ASTERISK)
            (Expr (Leaf (num ''2'')) (sym PLUS) (Leaf (num ''3''))))"
  by code_simp

text \<open>
  The same group in second place is parsed by \<open>parse_factor\<close> and evaluates as the claim
  expects.
\<close>

lemma grouping_right: "main ''4*(2+3)'' = Inr (Finite False 20)"
  unfolding main_def scan_grouping_right sum.case parse_grouping_right
  by (simp add: eval_simps)

lemma scan_1_plus_2: "scan ''1+2'' = Inr [num ''1'', sym PLUS, num ''2'']"
  by code_simp

lemma scan_1_plus_2_wrapped:
  "scan ''(1+2)'' = Inr [sym LBRACKET, num ''1'', sym PLUS, num ''2'', sym RBRACKET]"
  by code_simp

text \<open>
  C6. Stripping of the outer brackets: the inputs \<open>(1+2)\<close> and \<open>1+2\<close> scan to token
  lists that parse to the same tree.
\<close>

theorem outer_brackets_stripped:
  "scan ''(1+2)'' = Inr [sym LBRACKET, num ''1'', sym PLUS, num ''2'', sym RBRACKET] \<and>
   scan ''1+2'' = Inr [num ''1'', sym PLUS, num ''2''] \<and>
   parse [sym LBRACKET, num ''1'', sym PLUS, num ''2'', sym RBRACKET] =
     Inr (Expr (Leaf (num ''1'')) (sym PLUS) (Leaf (num ''2''))) \<and>
   parse [num ''1'', sym PLUS, num ''2''] =
     Inr (Expr (Leaf (num ''1'')) (sym PLUS) (Leaf (num ''2'')))"
proof -
  have "parse [sym LBRACKET, num ''1'', sym PLUS, num ''2'', sym RBRACKET] =
     Inr (Expr (Leaf (num ''1'')) (sym PLUS) (Leaf (num ''2'')))"
    by code_simp
  moreover have "parse [num ''1'', sym PLUS, num ''2''] =
     Inr (Expr (Leaf (num ''1'')) (sym PLUS) (Leaf (num ''2'')))"
    by code_simp
  ultimately show ?thesis using scan_1_plus_2 scan_1_plus_2_wrapped by simp
qed

section \<open>The scanner on malformed numbers\<close>

lemma scan_num_digits_run:
  "list_all is_digit ds \<Longrightarrow> rest = [] \<or> \<not> is_digit (hd rest) \<Longrightarrow>
   scan_num_digits (pre @ c # ds @ rest) (length pre) = length pre + length ds"
proof (induction ds arbitrary: pre c)
  case Nil
  then show ?case
    by (cases rest) (simp_all add: scan_num_digits.simps [of _ "length pre"] nth_append)
next
  case (Cons d ds)
  have "scan_num_digits ((pre @ [c]) @ d # ds @ rest) (length (pre @ [c])) =
          length (pre @ [c]) + length ds"
    using Cons.prems by (intro Cons.IH) simp_all
  then have "scan_num_digits (pre @ c # (d # ds) @ rest) (length pre + 1) =
          length pre + length (d # ds)"
    by simp
  moreover have "is_digit ((pre @ c # (d # ds) @ rest) ! (length pre + 1))"
    using Cons.prems by (simp add: nth_append)
  ultimately show ?case
    by (simp add: scan_num_digits.simps [of _ "length pre"])
qed

lemma scan_num_fraction_second_point:
  "list_all is_digit ds \<Longrightarrow>
   scan_num_fraction (pre @ c # ds @ CHR ''.'' # rest) (length pre) =
     Inl (ValueError ''Number has two decimal points'')"
proof (induction ds arbitrary: pre c)
  case Nil
  then show ?case
    by (simp add: scan_num_fraction.simps [of _ "length pre"] nth_append is_digit_def)
next
  case (Cons d ds)
  have "scan_num_fraction ((pre @ [c]) @ d # ds @ CHR ''.'' # rest) (length (pre @ [c])) =
          Inl (ValueError ''Number has two decimal points'')"
    using Cons.prems by (intro Cons.IH) simp
  then have "scan_num_fraction (pre @ c # (d # ds) @ CHR ''.'' # rest) (length pre + 1) =
          Inl (ValueError ''Number has two decimal points'')"
    by simp
  moreover have "is_digit ((pre @ c # (d # ds) @ CHR ''.'' # rest) ! (length pre + 1))"
    using Cons.prems by (simp add: nth_append)
  ultimately show ?case
    by (simp add: scan_num_fraction.simps [of _ "length pre"])
qed

lemma scan_num_second_point:
  assumes "list_all is_digit d1" and "list_all is_digit d2"
  shows "scan_num (pre @ c # d1 @ ''.'' @ d2 @ ''.'' @ rest) (length pre) =
           Inl (ValueError ''Number has two decimal points'')"
proof -
  let ?src = "pre @ c # d1 @ ''.'' @ d2 @ ''.'' @ rest"
  have "\<not> is_digit (hd (''.'' @ d2 @ ''.'' @ rest))" by (simp add: is_digit_def)
  with assms(1) have d: "scan_num_digits ?src (length pre) = length pre + length d1"
    by (intro scan_num_digits_run) simp_all
  have pt: "?src ! (length pre + length d1 + 1) = CHR ''.''"
    by (simp add: nth_append)
  have "scan_num_fraction ((pre @ c # d1) @ CHR ''.'' # d2 @ CHR ''.'' # rest)
          (length (pre @ c # d1)) = Inl (ValueError ''Number has two decimal points'')"
    using assms(2) by (rule scan_num_fraction_second_point)
  then have "scan_num_fraction ?src (length pre + length d1 + 1) =
          Inl (ValueError ''Number has two decimal points'')"
    by simp
  with d pt show ?thesis by (simp add: scan_num_def)
qed

text \<open>
  C7. A second decimal point in a number: when a digit \<open>c\<close> is followed by digits
  \<open>d1\<close>, a point, digits \<open>d2\<close> and another point, \<open>scan_num\<close> called at \<open>c\<close> raises
  \<open>ValueError("Number has two decimal points")\<close>, and so does the scanning loop when it
  arrives at \<open>c\<close>, whatever precedes and follows; in particular the scan of \<open>1.2.3\<close>
  fails so. (The code has one exception class for every failure; the spec's \<open>LexError\<close> is
  this \<open>ValueError\<close>.)
\<close>

theorem second_decimal_point_raises:
  assumes "is_digit c" and "list_all is_digit d1" and "list_all is_digit d2"
  shows "scan_num (pre @ c # d1 @ ''.'' @ d2 @ ''.'' @ rest) (length pre) =
           Inl (ValueError ''Number has two decimal points'') \<and>
         scan_loop (pre @ c # d1 @ ''.'' @ d2 @ ''.'' @ rest) (length pre) tokens =
           Inl (ValueError ''Number has two decimal points'') \<and>
         scan (c # d1 @ ''.'' @ d2 @ ''.'' @ rest) =
           Inl (ValueError ''Number has two decimal points'')"
proof -
  have loop: "scan_loop (p @ c # d1 @ ''.'' @ d2 @ ''.'' @ rest) (length p) tokens =
           Inl (ValueError ''Number has two decimal points'')" for p tokens
    using assms(1) scan_num_second_point [OF assms(2,3), of p c rest]
    by (simp add: scan_loop.simps [of _ "length p"] nth_append)
  from loop [of "[]" "[]"] have "scan (c # d1 @ ''.'' @ d2 @ ''.'' @ rest) =
           Inl (ValueError ''Number has two decimal points'')"
    by (simp add: scan_def)
  with loop [of pre tokens] scan_num_second_point [OF assms(2,3), of pre c rest]
  show ?thesis by simp
qed

theorem second_decimal_point_raises_witness:
  "is_digit CHR ''1'' \<and> list_all is_digit [] \<and> list_all is_digit ''2'' \<and>
   scan ''1.2.3'' = Inl (ValueError ''Number has two decimal points'')"
  using second_decimal_point_raises [of "CHR ''1''" "[]" "''2''" "[]" "''3''" "[]"]
  by (simp add: is_digit_def)


text \<open>
  The docstring of \<open>scan_num\<close> promises the index of the last digit. For a number that
  ends in a point the function returns the index of the point.
\<close>

lemma scan_num_trailing_point: "scan_num ''1.'' 0 = Inr 1"
  by code_simp

section \<open>What the parser consumes and what it builds\<close>

text \<open>
  A tree is well formed when every leaf is a \<open>NUM\<close> token and every operator is one of
  the four arithmetic kinds. \<open>tree_tokens\<close> lists the tokens that occur in a tree.
\<close>

fun well_formed :: "node \<Rightarrow> bool" where
  "well_formed (Leaf t) = (get_ttype t = NUM)"
| "well_formed (Expr left op right) =
     (get_ttype op \<in> {PLUS, MINUS, ASTERISK, FSLASH} \<and> well_formed left \<and> well_formed right)"

fun tree_tokens :: "node \<Rightarrow> Token list" where
  "tree_tokens (Leaf t) = [t]"
| "tree_tokens (Expr left op right) = tree_tokens left @ op # tree_tokens right"

lemma well_formed_fuel:
  "parse_expression_fuel n ts c = Some (Inr (t, c')) \<Longrightarrow> well_formed t"
  "expression_loop n ts l c = Some (Inr (t, c')) \<Longrightarrow> well_formed l \<Longrightarrow> well_formed t"
  "parse_term_fuel n ts c = Some (Inr (t, c')) \<Longrightarrow> well_formed t"
  "term_loop n ts l c = Some (Inr (t, c')) \<Longrightarrow> well_formed l \<Longrightarrow> well_formed t"
  "parse_factor_fuel n ts c = Some (Inr (t, c')) \<Longrightarrow> well_formed t"
proof (induction n ts c and n ts l c and n ts c and n ts l c and n ts c
    arbitrary: t c' and t c' and t c' and t c' and t c'
    rule: parse_expression_fuel_expression_loop_parse_term_fuel_term_loop_parse_factor_fuel.induct)
  case (1 tokens cur)
  then show ?case by simp
next
  case (2 fuel tokens cur)
  then show ?case by (fastforce split: option.splits sum.splits)
next
  case (3 tokens left cur)
  then show ?case by simp
next
  case (4 fuel tokens left cur)
  then show ?case by (fastforce split: option.splits sum.splits if_splits)
next
  case (5 tokens cur)
  then show ?case by simp
next
  case (6 fuel tokens cur)
  then show ?case by (fastforce split: option.splits sum.splits)
next
  case (7 tokens left cur)
  then show ?case by simp
next
  case (8 fuel tokens left cur)
  then show ?case by (fastforce split: option.splits sum.splits if_splits)
next
  case (9 tokens cur)
  then show ?case by simp
next
  case (10 fuel tokens cur)
  then show ?case
    by (fastforce simp: Let_def consume_token_def split: option.splits sum.splits if_splits)
qed

lemma no_dot_fuel:
  "parse_expression_fuel n ts c = Some (Inr (t, c')) \<Longrightarrow>
     \<forall>i. c \<le> i \<and> i < c' \<longrightarrow> get_ttype (ts ! i) \<noteq> DOT"
  "expression_loop n ts l c = Some (Inr (t, c')) \<Longrightarrow>
     \<forall>i. c \<le> i \<and> i < c' \<longrightarrow> get_ttype (ts ! i) \<noteq> DOT"
  "parse_term_fuel n ts c = Some (Inr (t, c')) \<Longrightarrow>
     \<forall>i. c \<le> i \<and> i < c' \<longrightarrow> get_ttype (ts ! i) \<noteq> DOT"
  "term_loop n ts l c = Some (Inr (t, c')) \<Longrightarrow>
     \<forall>i. c \<le> i \<and> i < c' \<longrightarrow> get_ttype (ts ! i) \<noteq> DOT"
  "parse_factor_fuel n ts c = Some (Inr (t, c')) \<Longrightarrow>
     \<forall>i. c \<le> i \<and> i < c' \<longrightarrow> get_ttype (ts ! i) \<noteq> DOT"
proof (induction n ts c and n ts l c and n ts c and n ts l c and n ts c
    arbitrary: t c' and t c' and t c' and t c' and t c'
    rule: parse_expression_fuel_expression_loop_parse_term_fuel_term_loop_parse_factor_fuel.induct)
  case (1 tokens cur)
  then show ?case by simp
next
  case (2 fuel tokens cur)
  from "2.prems" obtain left c1 where
    a: "parse_term_fuel fuel tokens cur = Some (Inr (left, c1))" and
    b: "expression_loop fuel tokens left c1 = Some (Inr (t, c'))"
    by (auto split: option.splits sum.splits)
  from "2.IH"(1) [OF a] "2.IH"(2) [OF a refl refl b] show ?case
    by (metis not_le_imp_less)
next
  case (3 tokens left cur)
  then show ?case by simp
next
  case (4 fuel tokens left cur)
  show ?case
  proof (cases "cur < length tokens \<and> get_ttype (tokens ! cur) \<in> {PLUS, MINUS}")
    case False
    with "4.prems" show ?thesis by auto
  next
    case True
    with "4.prems" obtain right c1 where
      a: "parse_term_fuel fuel tokens (cur + 1) = Some (Inr (right, c1))" and
      b: "expression_loop fuel tokens (Expr left (tokens ! cur) right) c1 = Some (Inr (t, c'))"
      by (auto split: option.splits sum.splits)
    have c: "get_ttype (tokens ! cur) \<noteq> DOT" using True by auto
    show ?thesis
    proof (intro allI impI)
      fix i assume i: "cur \<le> i \<and> i < c'"
      consider "i = cur" | "cur + 1 \<le> i \<and> i < c1" | "c1 \<le> i \<and> i < c'" using i by linarith
      then show "get_ttype (tokens ! i) \<noteq> DOT"
      proof cases
        case 1
        with c show ?thesis by simp
      next
        case 2
        with "4.IH"(1) [OF True a] show ?thesis by blast
      next
        case 3
        with "4.IH"(2) [OF True a refl refl b] show ?thesis by blast
      qed
    qed
  qed
next
  case (5 tokens cur)
  then show ?case by simp
next
  case (6 fuel tokens cur)
  from "6.prems" obtain left c1 where
    a: "parse_factor_fuel fuel tokens cur = Some (Inr (left, c1))" and
    b: "term_loop fuel tokens left c1 = Some (Inr (t, c'))"
    by (auto split: option.splits sum.splits)
  from "6.IH"(1) [OF a] "6.IH"(2) [OF a refl refl b] show ?case
    by (metis not_le_imp_less)
next
  case (7 tokens left cur)
  then show ?case by simp
next
  case (8 fuel tokens left cur)
  show ?case
  proof (cases "cur < length tokens \<and> get_ttype (tokens ! cur) \<in> {ASTERISK, FSLASH}")
    case False
    with "8.prems" show ?thesis by auto
  next
    case True
    with "8.prems" obtain right c1 where
      a: "parse_factor_fuel fuel tokens (cur + 1) = Some (Inr (right, c1))" and
      b: "term_loop fuel tokens (Expr left (tokens ! cur) right) c1 = Some (Inr (t, c'))"
      by (auto split: option.splits sum.splits)
    have c: "get_ttype (tokens ! cur) \<noteq> DOT" using True by auto
    show ?thesis
    proof (intro allI impI)
      fix i assume i: "cur \<le> i \<and> i < c'"
      consider "i = cur" | "cur + 1 \<le> i \<and> i < c1" | "c1 \<le> i \<and> i < c'" using i by linarith
      then show "get_ttype (tokens ! i) \<noteq> DOT"
      proof cases
        case 1
        with c show ?thesis by simp
      next
        case 2
        with "8.IH"(1) [OF True a] show ?thesis by blast
      next
        case 3
        with "8.IH"(2) [OF True a refl refl b] show ?thesis by blast
      qed
    qed
  qed
next
  case (9 tokens cur)
  then show ?case by simp
next
  case (10 fuel tokens cur)
  show ?case
  proof (cases "get_ttype (tokens ! cur) = NUM")
    case True
    with "10.prems" show ?thesis by (auto simp: Let_def less_Suc_eq split: if_splits)
  next
    case False
    with "10.prems" have lt: "\<not> length tokens \<le> cur" and lb: "get_ttype (tokens ! cur) = LBRACKET"
      by (auto simp: Let_def split: if_splits)
    with "10.prems" False obtain c1 where
      a: "parse_expression_fuel fuel tokens (cur + 1) = Some (Inr (t, c1))" and
      b: "consume_token tokens c1 RBRACKET ''Expected closing bracket'' = Inr c'"
      by (auto simp: Let_def split: option.splits sum.splits)
    from b have c': "c' = c1 + 1" and rb: "get_ttype (tokens ! c1) = RBRACKET"
      by (auto simp: consume_token_def split: if_splits)
    show ?thesis
    proof (intro allI impI)
      fix i assume i: "cur \<le> i \<and> i < c'"
      consider "i = cur" | "cur + 1 \<le> i \<and> i < c1" | "i = c1" using i c' by linarith
      then show "get_ttype (tokens ! i) \<noteq> DOT"
      proof cases
        case 1
        with lb show ?thesis by simp
      next
        case 2
        with "10.IH" [OF lt refl False lb a] show ?thesis by blast
      next
        case 3
        with rb show ?thesis by simp
      qed
    qed
  qed
qed

lemma well_formed_tokens:
  "well_formed t \<Longrightarrow> \<forall>tok \<in> set (tree_tokens t). get_ttype tok \<notin> {DOT, LBRACKET, RBRACKET}"
  by (induction t) auto

lemma py_float_error: "py_float v = Inl e \<Longrightarrow> e \<noteq> ValueError ''Unknown operator''"
  by (auto simp: py_float_def Let_def split: option.splits if_splits)

lemma float_truediv_error: "float_truediv x y = Inl e \<Longrightarrow> e = ZeroDivisionError"
  by (cases y; cases x) (auto split: if_splits)

text \<open>
  The two parts of \<open>evaluate\<close> by name: the value of an operand (the \<open>isinstance\<close>
  test) and the \<open>match\<close> on the operator.
\<close>

definition operand :: "node \<Rightarrow> error + pyfloat" where
  "operand n = (case n of Expr _ _ _ \<Rightarrow> evaluate n | Leaf t \<Rightarrow> py_float (get_value t))"

definition binary :: "TokenType \<Rightarrow> pyfloat \<Rightarrow> pyfloat \<Rightarrow> error + pyfloat" where
  "binary k x y =
     (case k of
        PLUS \<Rightarrow> Inr (float_add x y)
      | MINUS \<Rightarrow> Inr (float_sub x y)
      | ASTERISK \<Rightarrow> Inr (float_mul x y)
      | FSLASH \<Rightarrow> float_truediv x y
      | _ \<Rightarrow> Inl (ValueError ''Unknown operator''))"

lemma evaluate_Expr:
  "evaluate (Expr left op right) =
     (case operand left of
        Inl e \<Rightarrow> Inl e
      | Inr x \<Rightarrow> (case operand right of Inl e \<Rightarrow> Inl e | Inr y \<Rightarrow> binary (get_ttype op) x y))"
  unfolding operand_def binary_def evaluate.simps ..

declare evaluate.simps(2) [simp del]

lemma binary_error:
  "k \<in> {PLUS, MINUS, ASTERISK, FSLASH} \<Longrightarrow> binary k x y = Inl e \<Longrightarrow> e = ZeroDivisionError"
  by (auto simp: binary_def dest: float_truediv_error)

lemma well_formed_known_operator:
  "well_formed t \<Longrightarrow> evaluate t \<noteq> Inl (ValueError ''Unknown operator'')"
proof (induction t)
  case (Leaf tok)
  show ?case by simp
next
  case (Expr left op right)
  from Expr have l: "operand left \<noteq> Inl (ValueError ''Unknown operator'')"
    by (cases left) (auto simp: operand_def dest: py_float_error)
  from Expr have r: "operand right \<noteq> Inl (ValueError ''Unknown operator'')"
    by (cases right) (auto simp: operand_def dest: py_float_error)
  from Expr.prems have k: "get_ttype op \<in> {PLUS, MINUS, ASTERISK, FSLASH}" by simp
  show ?case
  proof (cases "operand left")
    case (Inl e)
    with l show ?thesis by (simp add: evaluate_Expr)
  next
    case x: (Inr x)
    show ?thesis
    proof (cases "operand right")
      case (Inl e)
      with r x show ?thesis by (simp add: evaluate_Expr)
    next
      case (Inr y)
      with x binary_error [OF k, of x y] show ?thesis
        by (auto simp: evaluate_Expr)
    qed
  qed
qed

lemma parse_expression_well_formed:
  "parse_expression tokens cur = Inr (t, c') \<Longrightarrow> well_formed t"
proof -
  assume r: "parse_expression tokens cur = Inr (t, c')"
  obtain n where "parse_expression_fuel n tokens cur = Some (parse_expression tokens cur)"
    using parse_expression_fuel_ex by blast
  with r show ?thesis by (simp add: well_formed_fuel(1))
qed

lemma parse_well_formed: "parse tokens = Inr t \<Longrightarrow> well_formed t"
proof -
  assume r: "parse tokens = Inr t"
  then obtain ts c' where "parse_expression ts 0 = Inr (t, c')"
    by (auto simp: parse_def map_sum_def split: if_splits sum.splits)
  then show ?thesis by (rule parse_expression_well_formed)
qed

text \<open>
  C9. Tree invariant: in every tree that \<open>parse_expression\<close> returns, at any index of any
  token list, and in every tree that the top-level \<open>parse\<close> returns, each operator is one
  of \<open>PLUS\<close>, \<open>MINUS\<close>, \<open>ASTERISK\<close>, \<open>FSLASH\<close> and each leaf is a \<open>NUM\<close> token, so no
  \<open>DOT\<close>, \<open>LBRACKET\<close> or \<open>RBRACKET\<close> token occurs in the tree; and \<open>evaluate\<close> never
  raises \<open>ValueError("Unknown operator")\<close> on it.
\<close>

theorem parser_tree_invariant:
  "(parse_expression tokens cur = Inr (t, c') \<longrightarrow>
      well_formed t \<and>
      (\<forall>tok \<in> set (tree_tokens t). get_ttype tok \<notin> {DOT, LBRACKET, RBRACKET}) \<and>
      evaluate t \<noteq> Inl (ValueError ''Unknown operator'')) \<and>
   (parse tokens' = Inr t' \<longrightarrow>
      well_formed t' \<and>
      (\<forall>tok \<in> set (tree_tokens t'). get_ttype tok \<notin> {DOT, LBRACKET, RBRACKET}) \<and>
      evaluate t' \<noteq> Inl (ValueError ''Unknown operator''))"
proof (intro conjI impI)
  assume "parse_expression tokens cur = Inr (t, c')"
  then have w: "well_formed t" by (rule parse_expression_well_formed)
  then show "well_formed t" .
  from w show "\<forall>tok \<in> set (tree_tokens t). get_ttype tok \<notin> {DOT, LBRACKET, RBRACKET}"
    by (rule well_formed_tokens)
  from w show "evaluate t \<noteq> Inl (ValueError ''Unknown operator'')"
    by (rule well_formed_known_operator)
next
  assume "parse tokens' = Inr t'"
  then have w: "well_formed t'" by (rule parse_well_formed)
  then show "well_formed t'" .
  from w show "\<forall>tok \<in> set (tree_tokens t'). get_ttype tok \<notin> {DOT, LBRACKET, RBRACKET}"
    by (rule well_formed_tokens)
  from w show "evaluate t' \<noteq> Inl (ValueError ''Unknown operator'')"
    by (rule well_formed_known_operator)
qed

lemma parse_expression_1_plus_2:
  "parse_expression [num ''1'', sym PLUS, num ''2''] 0 =
     Inr (Expr (Leaf (num ''1'')) (sym PLUS) (Leaf (num ''2'')), 3)"
  by code_simp

lemma parse_1_plus_2:
  "parse [num ''1'', sym PLUS, num ''2''] = Inr (Expr (Leaf (num ''1'')) (sym PLUS) (Leaf (num ''2'')))"
  by code_simp

theorem parser_tree_invariant_witness:
  "parse_expression [num ''1'', sym PLUS, num ''2''] 0 =
     Inr (Expr (Leaf (num ''1'')) (sym PLUS) (Leaf (num ''2'')), 3) \<and>
   parse [num ''1'', sym PLUS, num ''2''] =
     Inr (Expr (Leaf (num ''1'')) (sym PLUS) (Leaf (num ''2''))) \<and>
   well_formed (Expr (Leaf (num ''1'')) (sym PLUS) (Leaf (num ''2''))) \<and>
   tree_tokens (Expr (Leaf (num ''1'')) (sym PLUS) (Leaf (num ''2''))) =
     [num ''1'', sym PLUS, num ''2''] \<and>
   get_ttype (num ''1'') \<notin> {DOT, LBRACKET, RBRACKET} \<and>
   get_ttype (sym PLUS) \<notin> {DOT, LBRACKET, RBRACKET} \<and>
   get_ttype (num ''2'') \<notin> {DOT, LBRACKET, RBRACKET} \<and>
   evaluate (Expr (Leaf (num ''1'')) (sym PLUS) (Leaf (num ''2''))) \<noteq>
     Inl (ValueError ''Unknown operator'')"
  using parser_tree_invariant [of "[num ''1'', sym PLUS, num ''2'']" 0
      "Expr (Leaf (num ''1'')) (sym PLUS) (Leaf (num ''2''))" 3
      "[num ''1'', sym PLUS, num ''2'']" "Expr (Leaf (num ''1'')) (sym PLUS) (Leaf (num ''2''))"]
    parse_expression_1_plus_2 parse_1_plus_2
  by simp

lemma parse_factor_dot:
  assumes "cur < length tokens" and "get_ttype (tokens ! cur) = DOT"
  shows "parse_factor tokens cur = Inl (ValueError ''Unexpected token'')"
    and "parse_term tokens cur = Inl (ValueError ''Unexpected token'')"
    and "parse_expression tokens cur = Inl (ValueError ''Unexpected token'')"
proof -
  have f: "parse_factor_fuel (Suc 0) tokens cur = Some (Inl (ValueError ''Unexpected token''))"
    using assms by (simp add: Let_def)
  then show "parse_factor tokens cur = Inl (ValueError ''Unexpected token'')"
    by (rule parse_factor_fuel_result)
  from f have t: "parse_term_fuel (Suc (Suc 0)) tokens cur = Some (Inl (ValueError ''Unexpected token''))"
    by (simp del: parse_factor_fuel.simps)
  then show "parse_term tokens cur = Inl (ValueError ''Unexpected token'')"
    by (rule parse_term_fuel_result)
  from t have "parse_expression_fuel (Suc (Suc (Suc 0))) tokens cur =
      Some (Inl (ValueError ''Unexpected token''))"
    by (simp del: parse_term_fuel.simps)
  then show "parse_expression tokens cur = Inl (ValueError ''Unexpected token'')"
    by (rule parse_expression_fuel_result)
qed

lemma parse_expression_no_dot:
  "parse_expression tokens cur = Inr (t, c') \<Longrightarrow> cur \<le> i \<Longrightarrow> i < c' \<Longrightarrow>
   get_ttype (tokens ! i) \<noteq> DOT"
proof -
  assume r: "parse_expression tokens cur = Inr (t, c')" and i: "cur \<le> i" "i < c'"
  obtain n where "parse_expression_fuel n tokens cur = Some (parse_expression tokens cur)"
    using parse_expression_fuel_ex by blast
  with r have "parse_expression_fuel n tokens cur = Some (Inr (t, c'))" by simp
  from no_dot_fuel(1) [OF this] i show ?thesis by blast
qed

text \<open>
  C8. Bare dot: when the scanning loop arrives at a point (one that no number has taken
  up), it appends a \<open>DOT\<close> token and goes on; \<open>parse_factor\<close> at a \<open>DOT\<close> token raises
  \<open>ValueError("Unexpected token")\<close>, and so do \<open>parse_term\<close> and \<open>parse_expression\<close> called
  there; and no token in the range that a successful \<open>parse_expression\<close> consumed is a
  \<open>DOT\<close>.
\<close>

theorem bare_dot:
  "(cur < length source \<and> source ! cur = CHR ''.'' \<longrightarrow>
      scan_loop source cur tokens = scan_loop source (cur + 1) (tokens @ [Token DOT None 1])) \<and>
   (k < length ts \<and> get_ttype (ts ! k) = DOT \<longrightarrow>
      parse_factor ts k = Inl (ValueError ''Unexpected token'') \<and>
      parse_term ts k = Inl (ValueError ''Unexpected token'') \<and>
      parse_expression ts k = Inl (ValueError ''Unexpected token'')) \<and>
   (parse_expression us j = Inr (t, j') \<longrightarrow>
      (\<forall>i. j \<le> i \<and> i < j' \<longrightarrow> get_ttype (us ! i) \<noteq> DOT))"
proof (intro conjI impI)
  assume "cur < length source \<and> source ! cur = CHR ''.''"
  then show "scan_loop source cur tokens = scan_loop source (cur + 1) (tokens @ [Token DOT None 1])"
    by (simp add: scan_loop.simps [of source cur] is_digit_def)
next
  assume a: "k < length ts \<and> get_ttype (ts ! k) = DOT"
  then show "parse_factor ts k = Inl (ValueError ''Unexpected token'')"
    by (simp add: parse_factor_dot)
  from a show "parse_term ts k = Inl (ValueError ''Unexpected token'')"
    by (simp add: parse_factor_dot)
  from a show "parse_expression ts k = Inl (ValueError ''Unexpected token'')"
    by (simp add: parse_factor_dot)
next
  assume "parse_expression us j = Inr (t, j')"
  then show "\<forall>i. j \<le> i \<and> i < j' \<longrightarrow> get_ttype (us ! i) \<noteq> DOT"
    using parse_expression_no_dot by blast
qed

lemma scan_dot: "scan ''1+.5'' = Inr [num ''1'', sym PLUS, sym DOT, num ''5'']"
  by code_simp

theorem bare_dot_witness:
  "scan ''.'' = Inr [sym DOT] \<and>
   parse_factor [num ''1'', sym PLUS, sym DOT, num ''5''] 2 = Inl (ValueError ''Unexpected token'') \<and>
   parse_expression [num ''1'', sym PLUS, sym DOT, num ''5''] 2 = Inl (ValueError ''Unexpected token'') \<and>
   parse_expression [num ''1'', sym PLUS, num ''2'', sym DOT] 0 =
     Inr (Expr (Leaf (num ''1'')) (sym PLUS) (Leaf (num ''2'')), 3) \<and>
   get_ttype ([num ''1'', sym PLUS, num ''2'', sym DOT] ! 0) \<noteq> DOT \<and>
   get_ttype ([num ''1'', sym PLUS, num ''2'', sym DOT] ! 1) \<noteq> DOT \<and>
   get_ttype ([num ''1'', sym PLUS, num ''2'', sym DOT] ! 2) \<noteq> DOT"
proof -
  have p: "parse_expression [num ''1'', sym PLUS, num ''2'', sym DOT] 0 =
     Inr (Expr (Leaf (num ''1'')) (sym PLUS) (Leaf (num ''2'')), 3)"
    by code_simp
  have e: "scan_loop ''.'' 1 [sym DOT] = Inr [sym DOT]"
    by code_simp
  from bare_dot [of 0 "''.''" "[]" 2 "[num ''1'', sym PLUS, sym DOT, num ''5'']"
      "[num ''1'', sym PLUS, num ''2'', sym DOT]" 0
      "Expr (Leaf (num ''1'')) (sym PLUS) (Leaf (num ''2''))" 3] p e
  show ?thesis by (simp add: scan_def)
qed

section \<open>The grammar and the completeness of the parser\<close>

text \<open>
  The grammar of the spec over token lists, together with the tree that each phrase
  denotes (operators of equal precedence group to the left):
  \<^verbatim>\<open>expression := term (('+' | '-') term)*\<close>,
  \<^verbatim>\<open>term := factor (('*' | '/') factor)*\<close>,
  \<^verbatim>\<open>factor := NUMBER | '(' expression ')'\<close>.
  Tokens are told apart by their kind only. This is the specification that the parser is
  compared with; the parser itself is the section above.
\<close>

inductive grammar_factor :: "Token list \<Rightarrow> node \<Rightarrow> bool"
  and grammar_term :: "Token list \<Rightarrow> node \<Rightarrow> bool"
  and grammar_expression :: "Token list \<Rightarrow> node \<Rightarrow> bool"
where
  num_factor: "get_ttype tok = NUM \<Longrightarrow> grammar_factor [tok] (Leaf tok)"
| group_factor: "grammar_expression ts t \<Longrightarrow> get_ttype lb = LBRACKET \<Longrightarrow> get_ttype rb = RBRACKET \<Longrightarrow>
     grammar_factor (lb # ts @ [rb]) t"
| factor_term: "grammar_factor ts t \<Longrightarrow> grammar_term ts t"
| product_term: "grammar_term ts t \<Longrightarrow> get_ttype op \<in> {ASTERISK, FSLASH} \<Longrightarrow> grammar_factor us u \<Longrightarrow>
     grammar_term (ts @ op # us) (Expr t op u)"
| term_expression: "grammar_term ts t \<Longrightarrow> grammar_expression ts t"
| sum_expression: "grammar_expression ts t \<Longrightarrow> get_ttype op \<in> {PLUS, MINUS} \<Longrightarrow> grammar_term us u \<Longrightarrow>
     grammar_expression (ts @ op # us) (Expr t op u)"

definition starts_with :: "TokenType set \<Rightarrow> Token list \<Rightarrow> bool" where
  "starts_with K ts = (ts \<noteq> [] \<and> get_ttype (hd ts) \<in> K)"

lemma term_loop_stop:
  "\<not> starts_with {ASTERISK, FSLASH} post \<Longrightarrow>
   term_loop (Suc 0) (pre @ ts @ post) t (length pre + length ts) =
     Some (Inr (t, length pre + length ts))"
  by (cases post) (auto simp: starts_with_def nth_append)

lemma expression_loop_stop:
  "\<not> starts_with {PLUS, MINUS} post \<Longrightarrow>
   expression_loop (Suc 0) (pre @ ts @ post) t (length pre + length ts) =
     Some (Inr (t, length pre + length ts))"
  by (cases post) (auto simp: starts_with_def nth_append)

lemma grammar_complete:
  "grammar_factor ts t \<Longrightarrow>
     \<exists>n. parse_factor_fuel n (pre @ ts @ post) (length pre) = Some (Inr (t, length pre + length ts))"
  "grammar_term ts t \<Longrightarrow>
     term_loop m (pre @ ts @ post) t (length pre + length ts) = Some r \<Longrightarrow>
     \<exists>n. parse_term_fuel n (pre @ ts @ post) (length pre) = Some r"
  "grammar_expression ts t \<Longrightarrow> \<not> starts_with {ASTERISK, FSLASH} post \<Longrightarrow>
     expression_loop m (pre @ ts @ post) t (length pre + length ts) = Some r \<Longrightarrow>
     \<exists>n. parse_expression_fuel n (pre @ ts @ post) (length pre) = Some r"
proof (induction ts t and ts t and ts t arbitrary: pre post and pre post m r and pre post m r
    rule: grammar_factor_grammar_term_grammar_expression.inducts)
  case (num_factor tok)
  then have "parse_factor_fuel (Suc 0) (pre @ [tok] @ post) (length pre) =
      Some (Inr (Leaf tok, length pre + length [tok]))"
    by (simp add: Let_def nth_append)
  then show ?case by blast
next
  case (group_factor ts t lb rb)
  let ?all = "pre @ (lb # ts @ [rb]) @ post"
  have eq: "?all = (pre @ [lb]) @ ts @ (rb # post)" by simp
  have stop: "expression_loop (Suc 0) ((pre @ [lb]) @ ts @ (rb # post)) t
      (length (pre @ [lb]) + length ts) = Some (Inr (t, length (pre @ [lb]) + length ts))"
    using group_factor.hyps by (intro expression_loop_stop) (simp add: starts_with_def)
  have "\<not> starts_with {ASTERISK, FSLASH} (rb # post)"
    using group_factor.hyps by (simp add: starts_with_def)
  from group_factor.IH [OF this stop] obtain n where
    n: "parse_expression_fuel n ?all (length pre + 1) = Some (Inr (t, length pre + 1 + length ts))"
    by (auto simp: eq)
  have rb: "?all ! (length pre + 1 + length ts) = rb"
    by (simp add: nth_append)
  have lb: "?all ! length pre = lb" by (simp add: nth_append)
  have "parse_factor_fuel (Suc n) ?all (length pre) =
      Some (Inr (t, length pre + length (lb # ts @ [rb])))"
    using n rb lb group_factor.hyps by (simp add: Let_def consume_token_def del: append.simps append_assoc)
  then show ?case by blast
next
  case (factor_term ts t)
  from factor_term.IH [of pre post] obtain n where
    n: "parse_factor_fuel n (pre @ ts @ post) (length pre) = Some (Inr (t, length pre + length ts))"
    by blast
  let ?k = "max n m"
  from n have "parse_factor_fuel ?k (pre @ ts @ post) (length pre) =
      Some (Inr (t, length pre + length ts))"
    by (rule parse_factor_fuel_mono) simp
  moreover from factor_term.prems have "term_loop ?k (pre @ ts @ post) t (length pre + length ts) = Some r"
    by (rule term_loop_mono) simp
  ultimately have "parse_term_fuel (Suc ?k) (pre @ ts @ post) (length pre) = Some r"
    by simp
  then show ?case by blast
next
  case (product_term ts t op us u)
  let ?all = "pre @ (ts @ op # us) @ post"
  have eq1: "?all = pre @ ts @ (op # us @ post)" by simp
  have eq2: "?all = (pre @ ts @ [op]) @ us @ post" by simp
  from product_term.IH(2) [of "pre @ ts @ [op]" post] obtain n where
    n: "parse_factor_fuel n ?all (length pre + length ts + 1) =
          Some (Inr (u, length pre + length ts + 1 + length us))"
    unfolding eq2 [symmetric] by (auto simp: add.assoc)
  have op: "?all ! (length pre + length ts) = op" by (simp add: nth_append)
  let ?k = "max n m"
  from n have n': "parse_factor_fuel ?k ?all (length pre + length ts + 1) =
          Some (Inr (u, length pre + length ts + 1 + length us))"
    by (rule parse_factor_fuel_mono) simp
  from product_term.prems have "term_loop ?k ?all (Expr t op u) (length pre + length (ts @ op # us)) = Some r"
    by (rule term_loop_mono) simp
  then have "term_loop ?k ?all (Expr t op u) (length pre + length ts + 1 + length us) = Some r"
    by (simp add: add.assoc)
  with n' op product_term.hyps have "term_loop (Suc ?k) ?all t (length pre + length ts) = Some r"
    by (simp del: append.simps append_assoc)
  then have "term_loop (Suc ?k) (pre @ ts @ (op # us @ post)) t (length pre + length ts) = Some r"
    by (simp only: eq1)
  from product_term.IH(1) [OF this] show ?case by (simp only: eq1)
next
  case (term_expression ts t)
  have "term_loop (Suc 0) (pre @ ts @ post) t (length pre + length ts) =
      Some (Inr (t, length pre + length ts))"
    using term_expression.prems(1) by (rule term_loop_stop)
  from term_expression.IH [OF this] obtain n where
    n: "parse_term_fuel n (pre @ ts @ post) (length pre) = Some (Inr (t, length pre + length ts))"
    by blast
  let ?k = "max n m"
  from n have "parse_term_fuel ?k (pre @ ts @ post) (length pre) =
      Some (Inr (t, length pre + length ts))"
    by (rule parse_term_fuel_mono) simp
  moreover from term_expression.prems(2)
  have "expression_loop ?k (pre @ ts @ post) t (length pre + length ts) = Some r"
    by (rule expression_loop_mono) simp
  ultimately have "parse_expression_fuel (Suc ?k) (pre @ ts @ post) (length pre) = Some r"
    by simp
  then show ?case by blast
next
  case (sum_expression ts t op us u)
  let ?all = "pre @ (ts @ op # us) @ post"
  have eq1: "?all = pre @ ts @ (op # us @ post)" by simp
  have eq2: "?all = (pre @ ts @ [op]) @ us @ post" by simp
  have "term_loop (Suc 0) ((pre @ ts @ [op]) @ us @ post) u (length (pre @ ts @ [op]) + length us) =
      Some (Inr (u, length (pre @ ts @ [op]) + length us))"
    using sum_expression.prems(1) by (rule term_loop_stop)
  from sum_expression.IH(2) [OF this] obtain n where
    n: "parse_term_fuel n ?all (length pre + length ts + 1) =
          Some (Inr (u, length pre + length ts + 1 + length us))"
    unfolding eq2 [symmetric] by (auto simp: add.assoc)
  have op: "?all ! (length pre + length ts) = op" by (simp add: nth_append)
  let ?k = "max n m"
  from n have n': "parse_term_fuel ?k ?all (length pre + length ts + 1) =
          Some (Inr (u, length pre + length ts + 1 + length us))"
    by (rule parse_term_fuel_mono) simp
  from sum_expression.prems(2)
  have "expression_loop ?k ?all (Expr t op u) (length pre + length (ts @ op # us)) = Some r"
    by (rule expression_loop_mono) simp
  then have "expression_loop ?k ?all (Expr t op u) (length pre + length ts + 1 + length us) = Some r"
    by (simp add: add.assoc)
  with n' op sum_expression.hyps have "expression_loop (Suc ?k) ?all t (length pre + length ts) = Some r"
    by (simp del: append.simps append_assoc)
  then have loop: "expression_loop (Suc ?k) (pre @ ts @ (op # us @ post)) t (length pre + length ts) = Some r"
    by (simp only: eq1)
  have "\<not> starts_with {ASTERISK, FSLASH} (op # us @ post)"
    using sum_expression.hyps by (auto simp: starts_with_def)
  from sum_expression.IH(1) [OF this loop] show ?case by (simp only: eq1)
qed


lemma parse_expression_complete:
  assumes "grammar_expression ts t" and "\<not> starts_with {PLUS, MINUS, ASTERISK, FSLASH} rest"
  shows "parse_expression (ts @ rest) 0 = Inr (t, length ts)"
proof -
  from assms(2) have a: "\<not> starts_with {PLUS, MINUS} rest" and m: "\<not> starts_with {ASTERISK, FSLASH} rest"
    by (auto simp: starts_with_def)
  have "expression_loop (Suc 0) ([] @ ts @ rest) t (length ([] :: Token list) + length ts) =
      Some (Inr (t, length ([] :: Token list) + length ts))"
    using a by (rule expression_loop_stop)
  from grammar_complete(3) [OF assms(1) m this] obtain n where
    "parse_expression_fuel n (ts @ rest) 0 = Some (Inr (t, length ts))"
    by auto
  then show ?thesis by (rule parse_expression_fuel_result)
qed

lemma grammar_nonempty:
  "grammar_factor ts t \<Longrightarrow> ts \<noteq> []"
  "grammar_term ts t \<Longrightarrow> ts \<noteq> []"
  "grammar_expression ts t \<Longrightarrow> ts \<noteq> []"
  by (induction rule: grammar_factor_grammar_term_grammar_expression.inducts) simp_all

lemma grammar_1_plus_2:
  "grammar_expression [num ''1'', sym PLUS, num ''2'']
     (Expr (Leaf (num ''1'')) (sym PLUS) (Leaf (num ''2'')))"
proof -
  have "grammar_expression ([num ''1''] @ sym PLUS # [num ''2''])
     (Expr (Leaf (num ''1'')) (sym PLUS) (Leaf (num ''2'')))"
    by (intro sum_expression term_expression factor_term num_factor) simp_all
  then show ?thesis by simp
qed

lemma scan_trailing:
  "scan ''1+2)3'' = Inr [num ''1'', sym PLUS, num ''2'', sym RBRACKET, num ''3'']"
  by code_simp

text \<open>
  C10 as stated allows any extra token that is not \<open>PLUS\<close> or \<open>MINUS\<close>. After the
  expression \<open>1+2\<close> the extra token \<open>*\<close> is taken up by the loop of \<open>parse_term\<close>: alone it
  makes \<open>parse_factor\<close> read behind the end of the list (\<open>IndexError\<close>), and followed by
  \<open>3\<close> it changes the tree to that of \<open>1+(2*3)\<close>.
\<close>

theorem trailing_operator_not_ignored:
  "grammar_expression [num ''1'', sym PLUS, num ''2'']
     (Expr (Leaf (num ''1'')) (sym PLUS) (Leaf (num ''2''))) \<and>
   get_ttype (sym ASTERISK) \<notin> {PLUS, MINUS} \<and>
   parse_expression ([num ''1'', sym PLUS, num ''2''] @ [sym ASTERISK]) 0 = Inl IndexError \<and>
   parse_expression ([num ''1'', sym PLUS, num ''2''] @ [sym ASTERISK, num ''3'']) 0 =
     Inr (Expr (Leaf (num ''1'')) (sym PLUS)
            (Expr (Leaf (num ''2'')) (sym ASTERISK) (Leaf (num ''3''))), 5)"
proof -
  have "parse_expression ([num ''1'', sym PLUS, num ''2''] @ [sym ASTERISK]) 0 = Inl IndexError"
    by code_simp
  moreover have "parse_expression ([num ''1'', sym PLUS, num ''2''] @ [sym ASTERISK, num ''3'']) 0 =
     Inr (Expr (Leaf (num ''1'')) (sym PLUS)
            (Expr (Leaf (num ''2'')) (sym ASTERISK) (Leaf (num ''3''))), 5)"
    by code_simp
  ultimately show ?thesis using grammar_1_plus_2 by simp
qed

section \<open>When evaluation raises\<close>

text \<open>
  The strings that the scanner stores in a \<open>NUM\<close> token: digits, at least one, and then
  possibly a point and more digits. \<open>numeric_leaves\<close> says that every leaf of a tree
  carries such a string.
\<close>

definition numeral_string :: "string \<Rightarrow> bool" where
  "numeral_string s =
     (let ip = takeWhile is_digit s; rest = dropWhile is_digit s
      in ip \<noteq> [] \<and> (rest = [] \<or> (hd rest = CHR ''.'' \<and> list_all is_digit (tl rest))))"

fun numeric_leaves :: "node \<Rightarrow> bool" where
  "numeric_leaves (Leaf t) = (case get_value t of None \<Rightarrow> False | Some s \<Rightarrow> numeral_string s)"
| "numeric_leaves (Expr left op right) = (numeric_leaves left \<and> numeric_leaves right)"

text \<open>
  A division whose right operand evaluates to zero is performed: in the order of
  evaluation (left operand, right operand, operator) the node is reached without an
  earlier error, its operator is \<open>FSLASH\<close> and the value of its right operand is \<open>0.0\<close> or
  \<open>-0.0\<close>.
\<close>

definition is_zero :: "pyfloat \<Rightarrow> bool" where
  "is_zero x = (case x of Finite s m \<Rightarrow> m = 0 | _ \<Rightarrow> False)"

fun divides_by_zero :: "node \<Rightarrow> bool" where
  "divides_by_zero (Leaf t) = False"
| "divides_by_zero (Expr left op right) =
     (divides_by_zero left \<or>
      (case operand left of
         Inl e \<Rightarrow> False
       | Inr x \<Rightarrow>
           divides_by_zero right \<or>
           (case operand right of
              Inl e \<Rightarrow> False
            | Inr y \<Rightarrow> get_ttype op = FSLASH \<and> is_zero y)))"

lemma py_float_numeral_string: "numeral_string s \<Longrightarrow> \<exists>v. py_float (Some s) = Inr v"
  by (auto simp: numeral_string_def py_float_def Let_def)

lemma float_truediv_raises: "(\<exists>e. float_truediv x y = Inl e) \<longleftrightarrow> is_zero y"
  by (cases y; cases x) (auto simp: is_zero_def)

lemma binary_raises:
  "k \<in> {PLUS, MINUS, ASTERISK, FSLASH} \<Longrightarrow>
   (\<exists>e. binary k x y = Inl e) \<longleftrightarrow> k = FSLASH \<and> is_zero y"
  using float_truediv_raises [of x y] by (auto simp: binary_def)

lemma operand_Expr: "operand (Expr left op right) = evaluate (Expr left op right)"
  by (simp add: operand_def)

lemma operand_raises:
  "well_formed t \<Longrightarrow> numeric_leaves t \<Longrightarrow>
   (\<forall>e. operand t = Inl e \<longrightarrow> e = ZeroDivisionError) \<and>
   ((\<exists>e. operand t = Inl e) \<longleftrightarrow> divides_by_zero t)"
proof (induction t)
  case (Leaf tok)
  then obtain s where "get_value tok = Some s" and "numeral_string s"
    by (auto split: option.splits)
  then obtain v where "operand (Leaf tok) = Inr v"
    using py_float_numeral_string [of s] by (auto simp: operand_def)
  then show ?case by simp
next
  case (Expr left op right)
  from Expr have L: "\<forall>e. operand left = Inl e \<longrightarrow> e = ZeroDivisionError"
    "(\<exists>e. operand left = Inl e) \<longleftrightarrow> divides_by_zero left" by simp_all
  from Expr have R: "\<forall>e. operand right = Inl e \<longrightarrow> e = ZeroDivisionError"
    "(\<exists>e. operand right = Inl e) \<longleftrightarrow> divides_by_zero right" by simp_all
  from Expr.prems have k: "get_ttype op \<in> {PLUS, MINUS, ASTERISK, FSLASH}" by simp
  show ?case
  proof (cases "operand left")
    case (Inl e)
    with L show ?thesis by (auto simp: operand_Expr evaluate_Expr)
  next
    case x: (Inr x)
    with L have nl: "\<not> divides_by_zero left" by auto
    show ?thesis
    proof (cases "operand right")
      case (Inl e)
      with R x nl show ?thesis by (auto simp: operand_Expr evaluate_Expr)
    next
      case y: (Inr y)
      with R have nr: "\<not> divides_by_zero right" by auto
      have ev: "operand (Expr left op right) = binary (get_ttype op) x y"
        using x y by (simp add: operand_Expr evaluate_Expr)
      have dz: "divides_by_zero (Expr left op right) \<longleftrightarrow> get_ttype op = FSLASH \<and> is_zero y"
        using x y nl nr by simp
      from binary_error [OF k] binary_raises [OF k, of x y] show ?thesis
        unfolding ev dz by blast
    qed
  qed
qed

lemma evaluate_raises_iff:
  assumes "well_formed (Expr left op right)" and "numeric_leaves (Expr left op right)"
  shows "((\<exists>e. evaluate (Expr left op right) = Inl e) \<longleftrightarrow> divides_by_zero (Expr left op right)) \<and>
         (\<forall>e. evaluate (Expr left op right) = Inl e \<longrightarrow> e = ZeroDivisionError)"
  using operand_raises [OF assms] by (simp add: operand_Expr)

subsection \<open>Trees built from scanned tokens\<close>

text \<open>
  Every \<open>NUM\<close> token of the scanner holds a numeral string, and the tokens of a parsed
  tree are among the tokens parsed; so \<open>float\<close> never fails on a leaf.
\<close>

lemma scan_num_digits_digits:
  "cur < length source \<Longrightarrow>
   scan_num_digits source cur < length source \<and>
   (\<forall>i. cur < i \<and> i \<le> scan_num_digits source cur \<longrightarrow> is_digit (source ! i))"
proof (induction source cur rule: scan_num_digits.induct)
  case (1 source cur)
  show ?case
  proof (cases "cur + 1 < length source \<and> is_digit (source ! (cur + 1))")
    case False
    with "1.prems" show ?thesis by (auto simp: scan_num_digits.simps [of source cur])
  next
    case True
    with "1.IH" have IH: "scan_num_digits source (cur + 1) < length source \<and>
      (\<forall>i. cur + 1 < i \<and> i \<le> scan_num_digits source (cur + 1) \<longrightarrow> is_digit (source ! i))"
      by simp
    have eq: "scan_num_digits source cur = scan_num_digits source (cur + 1)"
      using True by (simp add: scan_num_digits.simps [of source cur])
    show ?thesis
    proof (intro conjI allI impI)
      show "scan_num_digits source cur < length source" using IH eq by simp
    next
      fix i assume i: "cur < i \<and> i \<le> scan_num_digits source cur"
      show "is_digit (source ! i)"
      proof (cases "i = cur + 1")
        case True
        with \<open>cur + 1 < length source \<and> is_digit (source ! (cur + 1))\<close> show ?thesis by simp
      next
        case False
        with i eq have "cur + 1 < i \<and> i \<le> scan_num_digits source (cur + 1)" by simp
        with IH show ?thesis by blast
      qed
    qed
  qed
qed

lemma scan_num_fraction_digits:
  "cur < length source \<Longrightarrow> scan_num_fraction source cur = Inr c \<Longrightarrow>
   c < length source \<and> (\<forall>i. cur < i \<and> i \<le> c \<longrightarrow> is_digit (source ! i))"
proof (induction source cur rule: scan_num_fraction.induct)
  case (1 source cur)
  show ?case
  proof (cases "cur + 1 < length source \<and> is_digit (source ! (cur + 1))")
    case False
    with "1.prems" have "c = cur"
      by (auto simp: scan_num_fraction.simps [of source cur] split: if_splits)
    with "1.prems" show ?thesis by auto
  next
    case True
    with "1.prems" have r: "scan_num_fraction source (cur + 1) = Inr c"
      by (simp add: scan_num_fraction.simps [of source cur])
    with True "1.IH" have IH: "c < length source \<and>
      (\<forall>i. cur + 1 < i \<and> i \<le> c \<longrightarrow> is_digit (source ! i))"
      by simp
    show ?thesis
    proof (intro conjI allI impI)
      show "c < length source" using IH by simp
    next
      fix i assume i: "cur < i \<and> i \<le> c"
      show "is_digit (source ! i)"
      proof (cases "i = cur + 1")
        case True
        with \<open>cur + 1 < length source \<and> is_digit (source ! (cur + 1))\<close> show ?thesis by simp
      next
        case False
        with i have "cur + 1 < i \<and> i \<le> c" by simp
        with IH show ?thesis by blast
      qed
    qed
  qed
qed

lemma slice_digits:
  assumes "b < length source" and "\<forall>i. a \<le> i \<and> i \<le> b \<longrightarrow> is_digit (source ! i)"
  shows "list_all is_digit (take (b + 1 - a) (drop a source))"
  unfolding list_all_length
proof (intro allI impI)
  fix j assume "j < length (take (b + 1 - a) (drop a source))"
  then have j: "j < b + 1 - a" by simp
  then have "take (b + 1 - a) (drop a source) ! j = source ! (a + j)"
    using assms(1) by simp
  moreover have "a \<le> a + j \<and> a + j \<le> b" using j by simp
  ultimately show "is_digit (take (b + 1 - a) (drop a source) ! j)"
    using assms(2) by simp
qed

lemma numeral_string_digits: "w \<noteq> [] \<Longrightarrow> list_all is_digit w \<Longrightarrow> numeral_string w"
proof -
  assume ne: "w \<noteq> []" and all: "list_all is_digit w"
  from all have tw: "takeWhile is_digit w = w" and dw: "dropWhile is_digit w = []"
    by (simp_all add: list_all_iff)
  show ?thesis unfolding numeral_string_def Let_def tw dw using ne by simp
qed

lemma numeral_string_point:
  assumes "w \<noteq> []" and "list_all is_digit w" and "list_all is_digit fs"
  shows "numeral_string (w @ CHR ''.'' # fs)"
proof -
  have nd: "\<not> is_digit CHR ''.''" by (simp add: is_digit_def)
  from assms(2) have "\<forall>x \<in> set w. is_digit x" by (simp add: list_all_iff)
  with nd have "takeWhile is_digit (w @ CHR ''.'' # fs) = w"
    and "dropWhile is_digit (w @ CHR ''.'' # fs) = CHR ''.'' # fs"
    by (simp_all only: takeWhile_append2 dropWhile_append2 takeWhile.simps dropWhile.simps if_False
        append_Nil2)
  with assms(1,3) show ?thesis by (simp add: numeral_string_def)
qed

lemma scan_num_numeral:
  assumes "cur < length source" and "is_digit (source ! cur)" and "scan_num source cur = Inr c"
  shows "numeral_string (take (c + 1 - cur) (drop cur source))"
proof -
  let ?d = "scan_num_digits source cur"
  from scan_num_digits_digits [OF assms(1)] have dl: "?d < length source"
    and dd: "\<forall>i. cur < i \<and> i \<le> ?d \<longrightarrow> is_digit (source ! i)" by simp_all
  have cd: "cur \<le> ?d" by (rule scan_num_digits_ge)
  from dd assms(2) have "\<forall>i. cur \<le> i \<and> i \<le> ?d \<longrightarrow> is_digit (source ! i)"
    by (metis le_neq_implies_less)
  with dl have w: "list_all is_digit (take (?d + 1 - cur) (drop cur source))"
    by (rule slice_digits)
  have wne: "take (?d + 1 - cur) (drop cur source) \<noteq> []"
    using cd assms(1) by simp
  show ?thesis
  proof (cases "?d + 1 < length source \<and> source ! (?d + 1) = CHR ''.''")
    case False
    with assms(3) have "c = ?d" by (auto simp: scan_num_def Let_def)
    with w wne show ?thesis by (simp add: numeral_string_digits)
  next
    case True
    with assms(3) have r: "scan_num_fraction source (?d + 1) = Inr c"
      by (simp add: scan_num_def Let_def)
    from True have "?d + 1 < length source" by simp
    from scan_num_fraction_digits [OF this r] have cl: "c < length source"
      and fd: "\<forall>i. ?d + 2 \<le> i \<and> i \<le> c \<longrightarrow> is_digit (source ! i)" by simp_all
    from r have dc: "?d + 1 \<le> c" by (rule scan_num_fraction_ge)
    from cl fd have f: "list_all is_digit (take (c + 1 - (?d + 2)) (drop (?d + 2) source))"
      by (rule slice_digits)
    have "c + 1 - cur = (?d + 1 - cur) + (c - ?d)" using cd dc by simp
    then have "take (c + 1 - cur) (drop cur source) =
        take (?d + 1 - cur) (drop cur source) @ take (c - ?d) (drop (?d + 1 - cur) (drop cur source))"
      by (simp only: take_add)
    also have "drop (?d + 1 - cur) (drop cur source) = drop (?d + 1) source"
      using cd by simp
    also have "drop (?d + 1) source = source ! (?d + 1) # drop (?d + 2) source"
      using \<open>?d + 1 < length source\<close> by (simp add: Cons_nth_drop_Suc)
    also have "take (c - ?d) (source ! (?d + 1) # drop (?d + 2) source) =
        CHR ''.'' # take (c + 1 - (?d + 2)) (drop (?d + 2) source)"
    proof -
      have k: "c - ?d = Suc (c + 1 - (?d + 2))" using dc by simp
      show ?thesis unfolding k using True by simp
    qed
    finally show ?thesis using w wne f by (simp add: numeral_string_point)
  qed
qed

text \<open>A \<open>NUM\<close> token that holds a numeral string; tokens of other kinds pass.\<close>

definition numeric_token :: "Token \<Rightarrow> bool" where
  "numeric_token tok =
     (get_ttype tok \<noteq> NUM \<or> (case get_value tok of None \<Rightarrow> False | Some s \<Rightarrow> numeral_string s))"

lemma scan_loop_symbol_step:
  assumes "cur < length source" and "\<not> is_digit (source ! cur)"
    and "scan_loop source cur acc = Inr tokens"
  shows "scan_loop source (cur + 1) acc = Inr tokens \<or>
         (\<exists>k. k \<noteq> NUM \<and> scan_loop source (cur + 1) (acc @ [Token k None 1]) = Inr tokens)"
proof -
  let ?c = "source ! cur"
  consider "?c = CHR ''+''" | "?c = CHR ''-''" | "?c = CHR ''*''" | "?c = CHR ''/''"
    | "?c = CHR ''(''" | "?c = CHR '')''" | "?c = CHR ''.''" | "?c = CHR '' ''"
    | "?c \<notin> {CHR ''+'', CHR ''-'', CHR ''*'', CHR ''/'', CHR ''('', CHR '')'', CHR ''.'', CHR '' ''}"
    by blast
  then show ?thesis
  proof cases
    case 1
    with assms have "scan_loop source (cur + 1) (acc @ [Token PLUS None 1]) = Inr tokens"
      by (simp add: scan_loop.simps [of source cur])
    then show ?thesis by blast
  next
    case 2
    with assms have "scan_loop source (cur + 1) (acc @ [Token MINUS None 1]) = Inr tokens"
      by (simp add: scan_loop.simps [of source cur])
    then show ?thesis by blast
  next
    case 3
    with assms have "scan_loop source (cur + 1) (acc @ [Token ASTERISK None 1]) = Inr tokens"
      by (simp add: scan_loop.simps [of source cur])
    then show ?thesis by blast
  next
    case 4
    with assms have "scan_loop source (cur + 1) (acc @ [Token FSLASH None 1]) = Inr tokens"
      by (simp add: scan_loop.simps [of source cur])
    then show ?thesis by blast
  next
    case 5
    with assms have "scan_loop source (cur + 1) (acc @ [Token LBRACKET None 1]) = Inr tokens"
      by (simp add: scan_loop.simps [of source cur])
    then show ?thesis by blast
  next
    case 6
    with assms have "scan_loop source (cur + 1) (acc @ [Token RBRACKET None 1]) = Inr tokens"
      by (simp add: scan_loop.simps [of source cur])
    then show ?thesis by blast
  next
    case 7
    with assms have "scan_loop source (cur + 1) (acc @ [Token DOT None 1]) = Inr tokens"
      by (simp add: scan_loop.simps [of source cur])
    then show ?thesis by blast
  next
    case 8
    with assms have "scan_loop source (cur + 1) acc = Inr tokens"
      by (simp add: scan_loop.simps [of source cur])
    then show ?thesis by blast
  next
    case 9
    with assms have False
      by (simp add: scan_loop.simps [of source cur])
    then show ?thesis ..
  qed
qed

lemma scan_loop_numeric:
  "scan_loop source cur acc = Inr tokens \<Longrightarrow> list_all numeric_token acc \<Longrightarrow>
   list_all numeric_token tokens"
proof (induction "length source - cur" arbitrary: cur acc rule: less_induct)
  case less
  show ?case
  proof (cases "cur < length source")
    case False
    with less.prems show ?thesis by (simp add: scan_loop.simps [of source cur])
  next
    case lt: True
    show ?thesis
    proof (cases "is_digit (source ! cur)")
      case True
      with lt less.prems(1) obtain c where
        c: "scan_num source cur = Inr c" and
        r: "scan_loop source (c + 1)
              (acc @ [Token NUM (Some (take (c + 1 - cur) (drop cur source))) (c - cur + 1)]) =
            Inr tokens"
        by (auto simp: scan_loop.simps [of source cur] split: sum.splits)
      from lt True c have "numeral_string (take (c + 1 - cur) (drop cur source))"
        by (rule scan_num_numeral)
      then have "numeric_token (Token NUM (Some (take (c + 1 - cur) (drop cur source))) (c - cur + 1))"
        by (simp add: numeric_token_def)
      with less.prems(2)
      have a: "list_all numeric_token
              (acc @ [Token NUM (Some (take (c + 1 - cur) (drop cur source))) (c - cur + 1)])"
        by simp
      from c have "cur \<le> c" by (rule scan_num_ge)
      with lt have "length source - (c + 1) < length source - cur" by simp
      from less.hyps [OF this r a] show ?thesis .
    next
      case False
      from lt have m: "length source - (cur + 1) < length source - cur" by simp
      from scan_loop_symbol_step [OF lt False less.prems(1)] show ?thesis
      proof
        assume "scan_loop source (cur + 1) acc = Inr tokens"
        from less.hyps [OF m this less.prems(2)] show ?thesis .
      next
        assume "\<exists>k. k \<noteq> NUM \<and> scan_loop source (cur + 1) (acc @ [Token k None 1]) = Inr tokens"
        then obtain k where k: "k \<noteq> NUM"
          and r: "scan_loop source (cur + 1) (acc @ [Token k None 1]) = Inr tokens" by blast
        from k have "numeric_token (Token k None 1)" by (simp add: numeric_token_def)
        with less.prems(2) have "list_all numeric_token (acc @ [Token k None 1])" by simp
        from less.hyps [OF m r this] show ?thesis .
      qed
    qed
  qed
qed

lemma scan_numeric: "scan source = Inr tokens \<Longrightarrow> list_all numeric_token tokens"
  using scan_loop_numeric [of source 0 "[]" tokens] by (simp add: scan_def)

lemma tree_tokens_fuel:
  "parse_expression_fuel n ts c = Some (Inr (t, c')) \<Longrightarrow> set (tree_tokens t) \<subseteq> set ts"
  "expression_loop n ts l c = Some (Inr (t, c')) \<Longrightarrow> set (tree_tokens l) \<subseteq> set ts \<Longrightarrow>
     set (tree_tokens t) \<subseteq> set ts"
  "parse_term_fuel n ts c = Some (Inr (t, c')) \<Longrightarrow> set (tree_tokens t) \<subseteq> set ts"
  "term_loop n ts l c = Some (Inr (t, c')) \<Longrightarrow> set (tree_tokens l) \<subseteq> set ts \<Longrightarrow>
     set (tree_tokens t) \<subseteq> set ts"
  "parse_factor_fuel n ts c = Some (Inr (t, c')) \<Longrightarrow> set (tree_tokens t) \<subseteq> set ts"
proof (induction n ts c and n ts l c and n ts c and n ts l c and n ts c
    arbitrary: t c' and t c' and t c' and t c' and t c'
    rule: parse_expression_fuel_expression_loop_parse_term_fuel_term_loop_parse_factor_fuel.induct)
  case (1 tokens cur)
  then show ?case by simp
next
  case (2 fuel tokens cur)
  from "2.prems" obtain left c1 where
    a: "parse_term_fuel fuel tokens cur = Some (Inr (left, c1))" and
    b: "expression_loop fuel tokens left c1 = Some (Inr (t, c'))"
    by (auto split: option.splits sum.splits)
  from "2.IH"(2) [OF a refl refl b "2.IH"(1) [OF a]] show ?case .
next
  case (3 tokens left cur)
  then show ?case by simp
next
  case (4 fuel tokens left cur)
  show ?case
  proof (cases "cur < length tokens \<and> get_ttype (tokens ! cur) \<in> {PLUS, MINUS}")
    case False
    with "4.prems" show ?thesis by auto
  next
    case True
    with "4.prems"(1) obtain right c1 where
      a: "parse_term_fuel fuel tokens (cur + 1) = Some (Inr (right, c1))" and
      b: "expression_loop fuel tokens (Expr left (tokens ! cur) right) c1 = Some (Inr (t, c'))"
      by (auto split: option.splits sum.splits)
    from True have "tokens ! cur \<in> set tokens" by simp
    with "4.prems"(2) "4.IH"(1) [OF True a]
    have "set (tree_tokens (Expr left (tokens ! cur) right)) \<subseteq> set tokens" by simp
    with "4.IH"(2) [OF True a refl refl b] show ?thesis .
  qed
next
  case (5 tokens cur)
  then show ?case by simp
next
  case (6 fuel tokens cur)
  from "6.prems" obtain left c1 where
    a: "parse_factor_fuel fuel tokens cur = Some (Inr (left, c1))" and
    b: "term_loop fuel tokens left c1 = Some (Inr (t, c'))"
    by (auto split: option.splits sum.splits)
  from "6.IH"(2) [OF a refl refl b "6.IH"(1) [OF a]] show ?case .
next
  case (7 tokens left cur)
  then show ?case by simp
next
  case (8 fuel tokens left cur)
  show ?case
  proof (cases "cur < length tokens \<and> get_ttype (tokens ! cur) \<in> {ASTERISK, FSLASH}")
    case False
    with "8.prems" show ?thesis by auto
  next
    case True
    with "8.prems"(1) obtain right c1 where
      a: "parse_factor_fuel fuel tokens (cur + 1) = Some (Inr (right, c1))" and
      b: "term_loop fuel tokens (Expr left (tokens ! cur) right) c1 = Some (Inr (t, c'))"
      by (auto split: option.splits sum.splits)
    from True have "tokens ! cur \<in> set tokens" by simp
    with "8.prems"(2) "8.IH"(1) [OF True a]
    have "set (tree_tokens (Expr left (tokens ! cur) right)) \<subseteq> set tokens" by simp
    with "8.IH"(2) [OF True a refl refl b] show ?thesis .
  qed
next
  case (9 tokens cur)
  then show ?case by simp
next
  case (10 fuel tokens cur)
  show ?case
  proof (cases "get_ttype (tokens ! cur) = NUM")
    case True
    with "10.prems" show ?thesis by (auto simp: Let_def split: if_splits)
  next
    case False
    with "10.prems" have lt: "\<not> length tokens \<le> cur" and lb: "get_ttype (tokens ! cur) = LBRACKET"
      by (auto simp: Let_def split: if_splits)
    with "10.prems" False obtain c1 where
      a: "parse_expression_fuel fuel tokens (cur + 1) = Some (Inr (t, c1))"
      by (auto simp: Let_def split: option.splits sum.splits)
    from "10.IH" [OF lt refl False lb a] show ?thesis .
  qed
qed

lemma parse_tree_tokens: "parse tokens = Inr t \<Longrightarrow> set (tree_tokens t) \<subseteq> set tokens"
proof -
  assume r: "parse tokens = Inr t"
  then obtain ts c' where p: "parse_expression ts 0 = Inr (t, c')"
    and ts: "ts = tokens \<or> ts = butlast (tl tokens)"
    by (auto simp: parse_def map_sum_def split: if_splits sum.splits)
  obtain n where "parse_expression_fuel n ts 0 = Some (parse_expression ts 0)"
    using parse_expression_fuel_ex by blast
  with p have "set (tree_tokens t) \<subseteq> set ts" by (simp add: tree_tokens_fuel(1))
  moreover have "set ts \<subseteq> set tokens"
    using ts by (cases tokens) (auto dest!: in_set_butlastD)
  ultimately show ?thesis by blast
qed

lemma numeric_leaves_tokens:
  "well_formed t \<Longrightarrow> list_all numeric_token (tree_tokens t) \<Longrightarrow> numeric_leaves t"
  by (induction t) (auto simp: numeric_token_def)

lemma scanned_tree:
  assumes "scan source = Inr tokens" and "parse tokens = Inr t"
  shows "well_formed t \<and> numeric_leaves t"
proof -
  from assms(2) have w: "well_formed t" by (rule parse_well_formed)
  from assms(1) have "list_all numeric_token tokens" by (rule scan_numeric)
  with parse_tree_tokens [OF assms(2)] have "list_all numeric_token (tree_tokens t)"
    by (auto simp: list_all_iff)
  with w show ?thesis by (simp add: numeric_leaves_tokens)
qed

lemma evaluate_scanned:
  assumes "scan source = Inr tokens" and "parse tokens = Inr (Expr left op right)"
  shows "((\<exists>e. evaluate (Expr left op right) = Inl e) \<longleftrightarrow> divides_by_zero (Expr left op right)) \<and>
         (\<forall>e. evaluate (Expr left op right) = Inl e \<longrightarrow> e = ZeroDivisionError)"
  using scanned_tree [OF assms] by (intro evaluate_raises_iff) simp_all

text \<open>
  C3. The claim is that \<open>evaluate\<close> raises on a tree from the parser exactly when a
  division by zero is performed. On the input \<open>5\<close> the parser returns the token itself,
  which has no method \<open>evaluate\<close>: line 192 raises \<open>AttributeError\<close> although the tree
  holds no division. (For every tree from scanned tokens that is an \<open>Expr\<close> the claim
  holds, lemma \<open>evaluate_scanned\<close>.)
\<close>

theorem single_number_raises:
  "scan ''5'' = Inr [num ''5''] \<and> parse [num ''5''] = Inr (Leaf (num ''5'')) \<and>
   evaluate (Leaf (num ''5'')) = Inl AttributeError \<and> main ''5'' = Inl AttributeError \<and>
   \<not> divides_by_zero (Leaf (num ''5''))"
proof -
  have s: "scan ''5'' = Inr [num ''5'']" by code_simp
  have p: "parse [num ''5''] = Inr (Leaf (num ''5''))" by code_simp
  have "main ''5'' = Inl AttributeError"
    unfolding main_def s sum.case p by simp
  with s p show ?thesis by simp
qed

section \<open>Valid inputs run through the whole pipeline\<close>

text \<open>
  The valid inputs: the grammar of the spec over characters, without blanks. A number is
  a digit followed by digits, or that followed by a point and digits. Each phrase comes
  with the token list it scans to and the tree it denotes.
\<close>

inductive input_factor :: "string \<Rightarrow> Token list \<Rightarrow> node \<Rightarrow> bool"
  and input_term :: "string \<Rightarrow> Token list \<Rightarrow> node \<Rightarrow> bool"
  and input_expression :: "string \<Rightarrow> Token list \<Rightarrow> node \<Rightarrow> bool"
where
  integer: "is_digit c \<Longrightarrow> list_all is_digit ds \<Longrightarrow>
     input_factor (c # ds) [num (c # ds)] (Leaf (num (c # ds)))"
| decimal: "is_digit c \<Longrightarrow> list_all is_digit ds \<Longrightarrow> list_all is_digit fs \<Longrightarrow>
     input_factor (c # ds @ ''.'' @ fs) [num (c # ds @ ''.'' @ fs)] (Leaf (num (c # ds @ ''.'' @ fs)))"
| bracketed: "input_expression s ts t \<Longrightarrow>
     input_factor (''('' @ s @ '')'') (sym LBRACKET # ts @ [sym RBRACKET]) t"
| one_factor: "input_factor s ts t \<Longrightarrow> input_term s ts t"
| times: "input_term s ts t \<Longrightarrow> input_factor s' ts' t' \<Longrightarrow>
     input_term (s @ ''*'' @ s') (ts @ sym ASTERISK # ts') (Expr t (sym ASTERISK) t')"
| over: "input_term s ts t \<Longrightarrow> input_factor s' ts' t' \<Longrightarrow>
     input_term (s @ ''/'' @ s') (ts @ sym FSLASH # ts') (Expr t (sym FSLASH) t')"
| one_term: "input_term s ts t \<Longrightarrow> input_expression s ts t"
| plus: "input_expression s ts t \<Longrightarrow> input_term s' ts' t' \<Longrightarrow>
     input_expression (s @ ''+'' @ s') (ts @ sym PLUS # ts') (Expr t (sym PLUS) t')"
| minus: "input_expression s ts t \<Longrightarrow> input_term s' ts' t' \<Longrightarrow>
     input_expression (s @ ''-'' @ s') (ts @ sym MINUS # ts') (Expr t (sym MINUS) t')"

lemma input_grammar:
  "input_factor s ts t \<Longrightarrow> grammar_factor ts t"
  "input_term s ts t \<Longrightarrow> grammar_term ts t"
  "input_expression s ts t \<Longrightarrow> grammar_expression ts t"
  by (induction rule: input_factor_input_term_input_expression.inducts)
    (auto intro: grammar_factor_grammar_term_grammar_expression.intros)

lemma numeral_string_integer:
  "is_digit c \<Longrightarrow> list_all is_digit ds \<Longrightarrow> numeral_string (c # ds)"
  by (simp add: numeral_string_def list_all_iff)

lemma numeral_string_decimal:
  assumes "is_digit c" and "list_all is_digit ds" and "list_all is_digit fs"
  shows "numeral_string (c # ds @ ''.'' @ fs)"
proof -
  have nd: "\<not> is_digit CHR ''.''" by (simp add: is_digit_def)
  from assms(1,2) have "\<forall>x \<in> set (c # ds). is_digit x" by (simp add: list_all_iff)
  with nd have "takeWhile is_digit ((c # ds) @ CHR ''.'' # fs) = c # ds"
    and "dropWhile is_digit ((c # ds) @ CHR ''.'' # fs) = CHR ''.'' # fs"
    by (simp_all only: takeWhile_append2 dropWhile_append2 takeWhile.simps dropWhile.simps if_False
        append_Nil2)
  with assms(3) show ?thesis by (simp add: numeral_string_def)
qed

lemma input_numeric:
  "input_factor s ts t \<Longrightarrow> numeric_leaves t"
  "input_term s ts t \<Longrightarrow> numeric_leaves t"
  "input_expression s ts t \<Longrightarrow> numeric_leaves t"
  by (induction rule: input_factor_input_term_input_expression.inducts)
    (simp_all add: numeral_string_integer numeral_string_decimal del: append.simps)

definition operator_chars :: "char set" where
  "operator_chars = {CHR ''+'', CHR ''-'', CHR ''*'', CHR ''/''}"

lemma digit_not_operator: "is_digit c \<Longrightarrow> c \<notin> operator_chars"
  by (auto simp: is_digit_def operator_chars_def)

lemma input_shape:
  "input_factor s ts t \<Longrightarrow>
     s \<noteq> [] \<and> ts \<noteq> [] \<and> (get_ttype (hd ts) = LBRACKET \<longleftrightarrow> hd s = CHR ''('') \<and>
     ((\<exists>tok. t = Leaf tok) \<longleftrightarrow> set s \<inter> operator_chars = {})"
  "input_term s ts t \<Longrightarrow>
     s \<noteq> [] \<and> ts \<noteq> [] \<and> (get_ttype (hd ts) = LBRACKET \<longleftrightarrow> hd s = CHR ''('') \<and>
     ((\<exists>tok. t = Leaf tok) \<longleftrightarrow> set s \<inter> operator_chars = {})"
  "input_expression s ts t \<Longrightarrow>
     s \<noteq> [] \<and> ts \<noteq> [] \<and> (get_ttype (hd ts) = LBRACKET \<longleftrightarrow> hd s = CHR ''('') \<and>
     ((\<exists>tok. t = Leaf tok) \<longleftrightarrow> set s \<inter> operator_chars = {})"
proof (induction rule: input_factor_input_term_input_expression.inducts)
  case (integer c ds)
  then have "\<forall>x \<in> set (c # ds). x \<notin> operator_chars"
    by (auto simp: list_all_iff dest: digit_not_operator)
  moreover from integer have "c \<noteq> CHR ''(''" by (auto simp: is_digit_def)
  ultimately show ?case by auto
next
  case (decimal c ds fs)
  moreover have "CHR ''.'' \<notin> operator_chars" by (simp add: operator_chars_def)
  ultimately have "\<forall>x \<in> set (c # ds @ ''.'' @ fs). x \<notin> operator_chars"
    by (auto simp: list_all_iff dest: digit_not_operator)
  moreover from decimal have "c \<noteq> CHR ''(''" by (auto simp: is_digit_def)
  ultimately show ?case by auto
next
  case (bracketed s ts t)
  then show ?case by (auto simp: operator_chars_def)
next
  case (one_factor s ts t)
  then show ?case by simp
next
  case (times s ts t s' ts' t')
  then show ?case by (auto simp: operator_chars_def)
next
  case (over s ts t s' ts' t')
  then show ?case by (auto simp: operator_chars_def)
next
  case (one_term s ts t)
  then show ?case by simp
next
  case (plus s ts t s' ts' t')
  then show ?case by (auto simp: operator_chars_def)
next
  case (minus s ts t s' ts' t')
  then show ?case by (auto simp: operator_chars_def)
qed

text \<open>What may follow a number: the end of the source, or no digit and no point.\<close>

definition ends_number :: "string \<Rightarrow> bool" where
  "ends_number post = (post = [] \<or> (\<not> is_digit (hd post) \<and> hd post \<noteq> CHR ''.''))"

lemma scan_num_fraction_run:
  "list_all is_digit fs \<Longrightarrow> ends_number rest \<Longrightarrow>
   scan_num_fraction (pre @ c # fs @ rest) (length pre) = Inr (length pre + length fs)"
proof (induction fs arbitrary: pre c)
  case Nil
  then show ?case
    by (cases rest)
      (simp_all add: scan_num_fraction.simps [of _ "length pre"] nth_append ends_number_def)
next
  case (Cons d fs)
  have "scan_num_fraction ((pre @ [c]) @ d # fs @ rest) (length (pre @ [c])) =
          Inr (length (pre @ [c]) + length fs)"
    using Cons.prems by (intro Cons.IH) simp_all
  then have "scan_num_fraction (pre @ c # (d # fs) @ rest) (length pre + 1) =
          Inr (length pre + length (d # fs))"
    by simp
  moreover have "is_digit ((pre @ c # (d # fs) @ rest) ! (length pre + 1))"
    using Cons.prems by (simp add: nth_append)
  ultimately show ?case
    by (simp add: scan_num_fraction.simps [of _ "length pre"])
qed

lemma scan_num_integer:
  assumes "list_all is_digit ds" and "ends_number post"
  shows "scan_num (pre @ (c # ds) @ post) (length pre) = Inr (length pre + length ds)"
proof -
  let ?src = "pre @ (c # ds) @ post"
  from assms have d: "scan_num_digits (pre @ c # ds @ post) (length pre) = length pre + length ds"
    by (intro scan_num_digits_run) (auto simp: ends_number_def)
  have "\<not> (length pre + length ds + 1 < length ?src \<and> ?src ! (length pre + length ds + 1) = CHR ''.'')"
    using assms(2) by (cases post) (auto simp: nth_append ends_number_def)
  with d show ?thesis by (auto simp: scan_num_def Let_def)
qed

lemma scan_num_decimal:
  assumes "list_all is_digit ds" and "list_all is_digit fs" and "ends_number post"
  shows "scan_num (pre @ (c # ds @ ''.'' @ fs) @ post) (length pre) =
           Inr (length pre + length ds + 1 + length fs)"
proof -
  let ?src = "pre @ (c # ds @ ''.'' @ fs) @ post"
  have "\<not> is_digit (hd (''.'' @ fs @ post))" by (simp add: is_digit_def)
  with assms(1) have "scan_num_digits (pre @ c # ds @ (''.'' @ fs @ post)) (length pre) =
      length pre + length ds"
    by (intro scan_num_digits_run) simp_all
  then have d: "scan_num_digits ?src (length pre) = length pre + length ds" by simp
  have pt: "length pre + length ds + 1 < length ?src \<and> ?src ! (length pre + length ds + 1) = CHR ''.''"
    by (simp add: nth_append)
  have "scan_num_fraction ((pre @ c # ds) @ CHR ''.'' # fs @ post) (length (pre @ c # ds)) =
      Inr (length (pre @ c # ds) + length fs)"
    using assms(2,3) by (rule scan_num_fraction_run)
  then have "scan_num_fraction ?src (length pre + length ds + 1) =
      Inr (length pre + length ds + 1 + length fs)"
    by simp
  with d pt show ?thesis by (simp add: scan_num_def Let_def)
qed

lemma scan_loop_number:
  assumes "is_digit c"
    and "scan_num (pre @ (c # w) @ post) (length pre) = Inr (length pre + length w)"
  shows "scan_loop (pre @ (c # w) @ post) (length pre) acc =
           scan_loop (pre @ (c # w) @ post) (length pre + length (c # w)) (acc @ [num (c # w)])"
proof -
  let ?src = "pre @ (c # w) @ post"
  have c: "?src ! length pre = c" by (simp add: nth_append)
  have sl: "take (length pre + length w + 1 - length pre) (drop (length pre) ?src) = c # w"
    by simp
  have "scan_loop ?src (length pre) acc =
      scan_loop ?src (length pre + length w + 1)
        (acc @ [Token NUM (Some (take (length pre + length w + 1 - length pre) (drop (length pre) ?src)))
                  (length pre + length w - length pre + 1)])"
    using assms c by (subst scan_loop.simps) (simp del: append.simps append_assoc drop_append take_append)
  then show ?thesis unfolding sl by simp
qed

lemma scan_loop_symbol:
  "scan_loop (pre @ CHR ''+'' # post) (length pre) acc =
     scan_loop (pre @ CHR ''+'' # post) (length pre + 1) (acc @ [sym PLUS])"
  "scan_loop (pre @ CHR ''-'' # post) (length pre) acc =
     scan_loop (pre @ CHR ''-'' # post) (length pre + 1) (acc @ [sym MINUS])"
  "scan_loop (pre @ CHR ''*'' # post) (length pre) acc =
     scan_loop (pre @ CHR ''*'' # post) (length pre + 1) (acc @ [sym ASTERISK])"
  "scan_loop (pre @ CHR ''/'' # post) (length pre) acc =
     scan_loop (pre @ CHR ''/'' # post) (length pre + 1) (acc @ [sym FSLASH])"
  "scan_loop (pre @ CHR ''('' # post) (length pre) acc =
     scan_loop (pre @ CHR ''('' # post) (length pre + 1) (acc @ [sym LBRACKET])"
  "scan_loop (pre @ CHR '')'' # post) (length pre) acc =
     scan_loop (pre @ CHR '')'' # post) (length pre + 1) (acc @ [sym RBRACKET])"
  by (simp_all add: scan_loop.simps [of _ "length pre"] nth_append is_digit_def)

lemma scan_loop_end: "scan_loop source (length source) acc = Inr acc"
  by (simp add: scan_loop.simps [of source "length source"])

lemma input_scan:
  "input_factor s ts t \<Longrightarrow> ends_number post \<Longrightarrow>
     scan_loop (pre @ s @ post) (length pre) acc =
       scan_loop (pre @ s @ post) (length pre + length s) (acc @ ts)"
  "input_term s ts t \<Longrightarrow> ends_number post \<Longrightarrow>
     scan_loop (pre @ s @ post) (length pre) acc =
       scan_loop (pre @ s @ post) (length pre + length s) (acc @ ts)"
  "input_expression s ts t \<Longrightarrow> ends_number post \<Longrightarrow>
     scan_loop (pre @ s @ post) (length pre) acc =
       scan_loop (pre @ s @ post) (length pre + length s) (acc @ ts)"
proof (induction arbitrary: pre post acc and pre post acc and pre post acc rule: input_factor_input_term_input_expression.inducts)
  case (integer c ds)
  from integer.hyps(2) integer.prems
  have "scan_num (pre @ (c # ds) @ post) (length pre) = Inr (length pre + length ds)"
    by (rule scan_num_integer)
  with integer.hyps(1) show ?case by (rule scan_loop_number)
next
  case (decimal c ds fs)
  from decimal.hyps(2,3) decimal.prems
  have "scan_num (pre @ (c # ds @ ''.'' @ fs) @ post) (length pre) =
      Inr (length pre + length ds + 1 + length fs)"
    by (rule scan_num_decimal)
  then have "scan_num (pre @ (c # ds @ ''.'' @ fs) @ post) (length pre) =
      Inr (length pre + length (ds @ ''.'' @ fs))"
    by simp
  with decimal.hyps(1) show ?case by (rule scan_loop_number)
next
  case (bracketed s ts t)
  let ?src = "pre @ (''('' @ s @ '')'') @ post"
  have 1: "scan_loop ?src (length pre) acc = scan_loop ?src (length pre + 1) (acc @ [sym LBRACKET])"
    using scan_loop_symbol(5) [of pre "s @ '')'' @ post" acc] by simp
  have "ends_number ('')'' @ post)" by (simp add: ends_number_def is_digit_def)
  from bracketed.IH [OF this, of "pre @ ''(''" "acc @ [sym LBRACKET]"]
  have 2: "scan_loop ?src (length pre + 1) (acc @ [sym LBRACKET]) =
      scan_loop ?src (length pre + 1 + length s) (acc @ [sym LBRACKET] @ ts)"
    by simp
  have 3: "scan_loop ?src (length pre + 1 + length s) (acc @ [sym LBRACKET] @ ts) =
      scan_loop ?src (length pre + 1 + length s + 1) (acc @ [sym LBRACKET] @ ts @ [sym RBRACKET])"
    using scan_loop_symbol(6) [of "pre @ ''('' @ s" post "acc @ [sym LBRACKET] @ ts"] by simp
  from 1 2 3 show ?case by (simp add: add.assoc)
next
  case (one_factor s ts t)
  then show ?case by simp
next
  case (times s ts t s' ts' t')
  let ?src = "pre @ (s @ ''*'' @ s') @ post"
  have "ends_number (''*'' @ s' @ post)" by (simp add: ends_number_def is_digit_def)
  from times.IH(1) [OF this, of pre acc]
  have 1: "scan_loop ?src (length pre) acc = scan_loop ?src (length pre + length s) (acc @ ts)"
    by simp
  have 2: "scan_loop ?src (length pre + length s) (acc @ ts) =
      scan_loop ?src (length pre + length s + 1) (acc @ ts @ [sym ASTERISK])"
    using scan_loop_symbol(3) [of "pre @ s" "s' @ post" "acc @ ts"] by simp
  from times.IH(2) [OF times.prems, of "pre @ s @ ''*''" "acc @ ts @ [sym ASTERISK]"]
  have 3: "scan_loop ?src (length pre + length s + 1) (acc @ ts @ [sym ASTERISK]) =
      scan_loop ?src (length pre + length s + 1 + length s') (acc @ ts @ [sym ASTERISK] @ ts')"
    by simp
  from 1 2 3 show ?case by (simp add: add.assoc)
next
  case (over s ts t s' ts' t')
  let ?src = "pre @ (s @ ''/'' @ s') @ post"
  have "ends_number (''/'' @ s' @ post)" by (simp add: ends_number_def is_digit_def)
  from over.IH(1) [OF this, of pre acc]
  have 1: "scan_loop ?src (length pre) acc = scan_loop ?src (length pre + length s) (acc @ ts)"
    by simp
  have 2: "scan_loop ?src (length pre + length s) (acc @ ts) =
      scan_loop ?src (length pre + length s + 1) (acc @ ts @ [sym FSLASH])"
    using scan_loop_symbol(4) [of "pre @ s" "s' @ post" "acc @ ts"] by simp
  from over.IH(2) [OF over.prems, of "pre @ s @ ''/''" "acc @ ts @ [sym FSLASH]"]
  have 3: "scan_loop ?src (length pre + length s + 1) (acc @ ts @ [sym FSLASH]) =
      scan_loop ?src (length pre + length s + 1 + length s') (acc @ ts @ [sym FSLASH] @ ts')"
    by simp
  from 1 2 3 show ?case by (simp add: add.assoc)
next
  case (one_term s ts t)
  then show ?case by simp
next
  case (plus s ts t s' ts' t')
  let ?src = "pre @ (s @ ''+'' @ s') @ post"
  have "ends_number (''+'' @ s' @ post)" by (simp add: ends_number_def is_digit_def)
  from plus.IH(1) [OF this, of pre acc]
  have 1: "scan_loop ?src (length pre) acc = scan_loop ?src (length pre + length s) (acc @ ts)"
    by simp
  have 2: "scan_loop ?src (length pre + length s) (acc @ ts) =
      scan_loop ?src (length pre + length s + 1) (acc @ ts @ [sym PLUS])"
    using scan_loop_symbol(1) [of "pre @ s" "s' @ post" "acc @ ts"] by simp
  from plus.IH(2) [OF plus.prems, of "pre @ s @ ''+''" "acc @ ts @ [sym PLUS]"]
  have 3: "scan_loop ?src (length pre + length s + 1) (acc @ ts @ [sym PLUS]) =
      scan_loop ?src (length pre + length s + 1 + length s') (acc @ ts @ [sym PLUS] @ ts')"
    by simp
  from 1 2 3 show ?case by (simp add: add.assoc)
next
  case (minus s ts t s' ts' t')
  let ?src = "pre @ (s @ ''-'' @ s') @ post"
  have "ends_number (''-'' @ s' @ post)" by (simp add: ends_number_def is_digit_def)
  from minus.IH(1) [OF this, of pre acc]
  have 1: "scan_loop ?src (length pre) acc = scan_loop ?src (length pre + length s) (acc @ ts)"
    by simp
  have 2: "scan_loop ?src (length pre + length s) (acc @ ts) =
      scan_loop ?src (length pre + length s + 1) (acc @ ts @ [sym MINUS])"
    using scan_loop_symbol(2) [of "pre @ s" "s' @ post" "acc @ ts"] by simp
  from minus.IH(2) [OF minus.prems, of "pre @ s @ ''-''" "acc @ ts @ [sym MINUS]"]
  have 3: "scan_loop ?src (length pre + length s + 1) (acc @ ts @ [sym MINUS]) =
      scan_loop ?src (length pre + length s + 1 + length s') (acc @ ts @ [sym MINUS] @ ts')"
    by simp
  from 1 2 3 show ?case by (simp add: add.assoc)
qed

lemma scan_input_expression: "input_expression s ts t \<Longrightarrow> scan s = Inr ts"
proof -
  assume "input_expression s ts t"
  from input_scan(3) [OF this, of "[]" "[]" "[]"] show ?thesis
    by (simp add: scan_def ends_number_def scan_loop_end)
qed

lemma parse_input_expression:
  assumes "input_expression s ts t"
  shows "parse_expression ts 0 = Inr (t, length ts)"
    and "hd s \<noteq> CHR ''('' \<Longrightarrow> parse ts = Inr t"
    and "parse (sym LBRACKET # ts @ [sym RBRACKET]) = Inr t"
proof -
  from assms have "grammar_expression ts t" by (rule input_grammar)
  then have "parse_expression (ts @ []) 0 = Inr (t, length ts)"
    by (rule parse_expression_complete) (simp add: starts_with_def)
  then show p: "parse_expression ts 0 = Inr (t, length ts)" by simp
  from input_shape(3) [OF assms] have ne: "ts \<noteq> []"
    and lb: "get_ttype (hd ts) = LBRACKET \<longleftrightarrow> hd s = CHR ''(''" by simp_all
  from ne have "ts ! 0 = hd ts" by (cases ts) simp_all
  with p ne lb show "hd s \<noteq> CHR ''('' \<Longrightarrow> parse ts = Inr t"
    by (simp add: parse_def)
  from p show "parse (sym LBRACKET # ts @ [sym RBRACKET]) = Inr t"
    by (simp add: parse_def butlast_append)
qed

lemma evaluate_input_expression:
  assumes "input_expression s ts t" and "set s \<inter> operator_chars \<noteq> {}"
  shows "(\<exists>v. evaluate t = Inr v) \<or> (evaluate t = Inl ZeroDivisionError \<and> divides_by_zero t)"
proof -
  from input_shape(3) [OF assms(1)] assms(2) have "\<nexists>tok. t = Leaf tok" by simp
  then obtain left op right where t: "t = Expr left op right" by (cases t) auto
  from parse_input_expression(1) [OF assms(1)] have w: "well_formed t"
    by (rule parse_expression_well_formed)
  from assms(1) have n: "numeric_leaves t" by (rule input_numeric)
  from evaluate_raises_iff [OF w [unfolded t] n [unfolded t]] show ?thesis
    unfolding t by (cases "evaluate (Expr left op right)") auto
qed

lemma main_input_expression:
  assumes "input_expression s ts t"
  shows "hd s \<noteq> CHR ''('' \<Longrightarrow> main s = evaluate t"
    and "main (''('' @ s @ '')'') = evaluate t"
proof -
  from assms have "scan s = Inr ts" by (rule scan_input_expression)
  then show "hd s \<noteq> CHR ''('' \<Longrightarrow> main s = evaluate t"
    using parse_input_expression(2) [OF assms] by (simp add: main_def)
  have "input_expression (''('' @ s @ '')'') (sym LBRACKET # ts @ [sym RBRACKET]) t"
    by (rule one_term, rule one_factor, rule bracketed, rule assms)
  then have "scan (''('' @ s @ '')'') = Inr (sym LBRACKET # ts @ [sym RBRACKET])"
    by (rule scan_input_expression)
  then show "main (''('' @ s @ '')'') = evaluate t"
    using parse_input_expression(3) [OF assms] by (simp add: main_def)
qed

lemma input_1_plus_2:
  "input_expression ''1+2'' [num ''1'', sym PLUS, num ''2'']
     (Expr (Leaf (num ''1'')) (sym PLUS) (Leaf (num ''2'')))"
proof -
  have "input_expression (''1'' @ ''+'' @ ''2'') ([num ''1''] @ sym PLUS # [num ''2''])
     (Expr (Leaf (num ''1'')) (sym PLUS) (Leaf (num ''2'')))"
    by (intro plus one_term one_factor integer) (simp_all add: is_digit_def)
  then show ?thesis by simp
qed

lemma round_float_one: "round_float s 1 = Finite s 1"
  using round_float_int [of 1 s] by simp

lemma evaluate_1_plus_2:
  "evaluate (Expr (Leaf (num ''1'')) (sym PLUS) (Leaf (num ''2''))) = Inr (Finite False 3)"
  by (simp add: evaluate_Expr operand_def binary_def eval_simps round_float_one)

text \<open>A magnitude of \<open>2^1024\<close> or more rounds to an infinity.\<close>

lemma bit_length_greater: "2 ^ k \<le> n \<Longrightarrow> k < bit_length n"
proof -
  assume k: "2 ^ k \<le> n"
  then have "0 < n" by (cases "n = 0") simp_all
  from bit_length_bounds [OF this] have "n < 2 ^ bit_length n" by simp
  with k have "(2::nat) ^ k < 2 ^ bit_length n" by (rule le_less_trans)
  then show ?thesis by (rule power_less_imp_less_exp [rotated]) simp
qed

lemma ilog2_ge: "2 ^ k \<le> q \<Longrightarrow> int k \<le> ilog2 q"
proof -
  assume k: "2 ^ k \<le> q"
  have "(1::rat) \<le> 2 ^ k" by simp
  from this k have q1: "1 \<le> q" by (rule order_trans)
  from k have "(of_int (2 ^ k) :: rat) \<le> q" by simp
  then have "(2::int) ^ k \<le> \<lfloor>q\<rfloor>" by (simp only: le_floor_iff)
  then have "(2::nat) ^ k \<le> nat \<lfloor>q\<rfloor>"
    by (metis nat_mono nat_numeral nat_power_eq zero_le_numeral)
  then have "k < bit_length (nat \<lfloor>q\<rfloor>)" by (rule bit_length_greater)
  with q1 show ?thesis by (simp add: ilog2_def)
qed

lemma round_float_overflow: "2 ^ 1024 \<le> q \<Longrightarrow> round_float s q = Infinity s"
proof -
  assume q: "2 ^ 1024 \<le> q"
  then have "int 1024 \<le> ilog2 q" by (rule ilog2_ge)
  then have e: "1023 < ilog2 q" by simp
  then have m: "max (ilog2 q) (- 1022) = ilog2 q" by simp
  have "(0::rat) < 2 ^ 1024" by simp
  with q have "q \<noteq> 0" by auto
  with e show ?thesis unfolding round_float_def Let_def m by simp
qed

lemma digits_value_zeros:
  "foldl (\<lambda>acc c. 10 * acc + digit_value c) a (replicate n CHR ''0'') = a * 10 ^ n"
  by (induction n arbitrary: a) (simp_all add: digit_value_def)

text \<open>The digit \<open>1\<close> followed by 309 zeros: the number \<open>10^309\<close>, beyond the largest float.\<close>

definition huge_literal :: string where
  "huge_literal = CHR ''1'' # replicate 309 CHR ''0''"

lemma py_float_huge_literal: "py_float (Some huge_literal) = Inr (Infinity False)"
proof -
  have one: "digit_value CHR ''1'' = 1" by (simp add: digit_value_def)
  have "digits_value huge_literal =
      foldl (\<lambda>acc c. 10 * acc + digit_value c) (10 * 0 + digit_value CHR ''1'')
        (replicate 309 CHR ''0'')"
    by (simp only: huge_literal_def digits_value_def foldl_Cons)
  also have "\<dots> = (10 * 0 + digit_value CHR ''1'') * 10 ^ 309"
    by (rule digits_value_zeros)
  also have "\<dots> = 10 ^ 309" by (simp add: one)
  finally have d: "digits_value huge_literal = 10 ^ 309" .
  have a: "list_all is_digit huge_literal"
    by (simp add: huge_literal_def list_all_iff is_digit_def)
  have "(2::rat) ^ 1024 \<le> 10 ^ 309" by simp
  then have "round_float False (of_nat (10 ^ 309)) = Infinity False"
    by (intro round_float_overflow) simp
  with d a show ?thesis by (simp add: py_float_digits huge_literal_def)
qed

lemma py_float_1: "py_float (Some ''1'') = Inr (Finite False 1)"
  by (simp add: eval_simps round_float_one)

text \<open>
  C2 as stated promises a finite result. The input \<open>1000...0+1\<close> with 309 zeros is valid
  and divides by nothing, and \<open>main\<close> returns \<open>inf\<close> on it: \<open>float\<close> of the first number is
  already infinite.
\<close>

theorem overflow_not_finite:
  "input_expression (huge_literal @ ''+1'') [num huge_literal, sym PLUS, num ''1'']
     (Expr (Leaf (num huge_literal)) (sym PLUS) (Leaf (num ''1''))) \<and>
   main (huge_literal @ ''+1'') = Inr (Infinity False) \<and>
   \<not> divides_by_zero (Expr (Leaf (num huge_literal)) (sym PLUS) (Leaf (num ''1'')))"
proof -
  let ?t = "Expr (Leaf (num huge_literal)) (sym PLUS) (Leaf (num ''1''))"
  have "input_factor huge_literal [num huge_literal] (Leaf (num huge_literal))"
    unfolding huge_literal_def by (rule integer) (simp_all add: is_digit_def list_all_iff)
  then have "input_expression huge_literal [num huge_literal] (Leaf (num huge_literal))"
    by (intro one_term one_factor)
  moreover have "input_term ''1'' [num ''1''] (Leaf (num ''1''))"
    by (intro one_factor integer) (simp_all add: is_digit_def)
  ultimately have "input_expression (huge_literal @ ''+'' @ ''1'')
      ([num huge_literal] @ sym PLUS # [num ''1'']) ?t"
    by (rule plus)
  then have i: "input_expression (huge_literal @ ''+1'') [num huge_literal, sym PLUS, num ''1''] ?t"
    by simp
  have "hd (huge_literal @ ''+1'') \<noteq> CHR ''(''" by (simp add: huge_literal_def)
  with i have m: "main (huge_literal @ ''+1'') = evaluate ?t"
    by (rule main_input_expression(1))
  have e: "evaluate ?t = Inr (Infinity False)"
    by (simp add: evaluate_Expr operand_def binary_def py_float_huge_literal py_float_1)
  have "\<not> divides_by_zero ?t"
    by (simp add: operand_def py_float_huge_literal py_float_1)
  with i m e show ?thesis by simp
qed

text \<open>
  Further inputs. The test of lines 183-185 looks at the first and the last token only:
  in \<open>(1+2)*(3+4)\<close> they are brackets that do not match each other, the slice is
  \<open>1+2)*(3+4\<close>, and the result is \<open>3.0\<close>. A division by zero raises.
\<close>

lemma scan_two_groups:
  "scan ''(1+2)*(3+4)'' =
     Inr [sym LBRACKET, num ''1'', sym PLUS, num ''2'', sym RBRACKET, sym ASTERISK,
          sym LBRACKET, num ''3'', sym PLUS, num ''4'', sym RBRACKET]"
  by code_simp

lemma parse_two_groups:
  "parse [sym LBRACKET, num ''1'', sym PLUS, num ''2'', sym RBRACKET, sym ASTERISK,
          sym LBRACKET, num ''3'', sym PLUS, num ''4'', sym RBRACKET] =
     Inr (Expr (Leaf (num ''1'')) (sym PLUS) (Leaf (num ''2'')))"
  by code_simp

lemma two_groups: "main ''(1+2)*(3+4)'' = Inr (Finite False 3)"
  unfolding main_def scan_two_groups sum.case parse_two_groups
  by (simp add: evaluate_Expr operand_def binary_def eval_simps round_float_one)

lemma division_by_zero: "main ''1/0'' = Inl ZeroDivisionError"
proof -
  have s: "scan ''1/0'' = Inr [num ''1'', sym FSLASH, num ''0'']" by code_simp
  have p: "parse [num ''1'', sym FSLASH, num ''0''] =
      Inr (Expr (Leaf (num ''1'')) (sym FSLASH) (Leaf (num ''0'')))" by code_simp
  have z: "py_float (Some ''0'') = Inr (Finite False 0)"
    by (simp add: py_float_digits is_digit_def digits_value_def digit_value_def round_float_def)
  show ?thesis
    unfolding main_def s sum.case p
    by (simp add: evaluate_Expr operand_def binary_def py_float_1 z)
qed

section \<open>The recursion limit\<close>

text \<open>
  The interpreter allows only so many nested calls, and a call for which it has no frame
  left raises \<open>RecursionError\<close>. Nothing in \<open>prototype.py\<close> sets that limit, so it is a
  parameter here: \<open>d\<close> is the number of frames that are free when a function is called;
  for the calls made in the body of \<open>main\<close> it is the limit of the interpreter less the
  frames in use while that body runs. A call of a function or a method that is written in
  \<open>prototype.py\<close> takes one frame for as long as it runs: the three parsing functions,
  \<open>consume_token\<close>, \<open>scan_num\<close>, the getters and the constructors of \<open>Token\<close> and
  \<open>Expr\<close>, \<open>Expr.evaluate\<close> and the two \<open>__repr__\<close>. The built-in operations (\<open>len\<close>,
  indexing, slicing, \<open>isinstance\<close>, \<open>float\<close>, \<open>append\<close>, comparison and arithmetic) are taken
  to need none: what the interpreter charges for them is not in the source. The functions
  of this section are those of the sections above with the bound threaded through: a
  function called with \<open>d = 0\<close> raises, and its body calls with \<open>d - 1\<close>.
\<close>

subsection \<open>The parser under the limit\<close>

text \<open>
  \<open>consume_token\<close> calls a getter only if the index is in range (the \<open>and\<close> of line 117
  is evaluated from the left).
\<close>

definition consume_token_limited ::
  "nat \<Rightarrow> Token list \<Rightarrow> nat \<Rightarrow> TokenType \<Rightarrow> string \<Rightarrow> error + nat" where
  "consume_token_limited d tokens cur ttype msg =
     (if d = 0 then Inl RecursionError
      else if cur < length tokens then
        (if d - 1 = 0 then Inl RecursionError
         else if get_ttype (tokens ! cur) = ttype then Inr (cur + 1)
         else Inl (ValueError msg))
      else Inl (ValueError msg))"


text \<open>
  The parsing functions, with fuel as before. The second argument is the number of free
  frames when the function is called; for the two loops, which are part of the body of
  their function, it is the number of frames free inside that body. Each turn of a loop
  calls \<open>get_ttype\<close> if the index is in range, then the next parsing function, then the
  constructor of \<open>Expr\<close>, which finds a frame because \<open>get_ttype\<close> did. \<open>parse_factor\<close>
  indexes the list before it calls \<open>get_ttype\<close>, so that \<open>IndexError\<close> comes first.
\<close>

function parse_expression_limited_fuel ::
    "nat \<Rightarrow> nat \<Rightarrow> Token list \<Rightarrow> nat \<Rightarrow> (error + node \<times> nat) option"
  and expression_loop_limited ::
    "nat \<Rightarrow> nat \<Rightarrow> Token list \<Rightarrow> node \<Rightarrow> nat \<Rightarrow> (error + node \<times> nat) option"
  and parse_term_limited_fuel ::
    "nat \<Rightarrow> nat \<Rightarrow> Token list \<Rightarrow> nat \<Rightarrow> (error + node \<times> nat) option"
  and term_loop_limited ::
    "nat \<Rightarrow> nat \<Rightarrow> Token list \<Rightarrow> node \<Rightarrow> nat \<Rightarrow> (error + node \<times> nat) option"
  and parse_factor_limited_fuel ::
    "nat \<Rightarrow> nat \<Rightarrow> Token list \<Rightarrow> nat \<Rightarrow> (error + node \<times> nat) option"
where
  "parse_expression_limited_fuel 0 d tokens cur = None"
| "parse_expression_limited_fuel (Suc fuel) d tokens cur =
     (if d = 0 then Some (Inl RecursionError)
      else case parse_term_limited_fuel fuel (d - 1) tokens cur of
        None \<Rightarrow> None
      | Some (Inl e) \<Rightarrow> Some (Inl e)
      | Some (Inr (left, cur')) \<Rightarrow> expression_loop_limited fuel (d - 1) tokens left cur')"
| "expression_loop_limited 0 r tokens left cur = None"
| "expression_loop_limited (Suc fuel) r tokens left cur =
     (if cur < length tokens then
        (if r = 0 then Some (Inl RecursionError)
         else if get_ttype (tokens ! cur) \<in> {PLUS, MINUS} then
           (case parse_term_limited_fuel fuel r tokens (cur + 1) of
              None \<Rightarrow> None
            | Some (Inl e) \<Rightarrow> Some (Inl e)
            | Some (Inr (right, cur')) \<Rightarrow>
                expression_loop_limited fuel r tokens (Expr left (tokens ! cur) right) cur')
         else Some (Inr (left, cur)))
      else Some (Inr (left, cur)))"
| "parse_term_limited_fuel 0 d tokens cur = None"
| "parse_term_limited_fuel (Suc fuel) d tokens cur =
     (if d = 0 then Some (Inl RecursionError)
      else case parse_factor_limited_fuel fuel (d - 1) tokens cur of
        None \<Rightarrow> None
      | Some (Inl e) \<Rightarrow> Some (Inl e)
      | Some (Inr (left, cur')) \<Rightarrow> term_loop_limited fuel (d - 1) tokens left cur')"
| "term_loop_limited 0 r tokens left cur = None"
| "term_loop_limited (Suc fuel) r tokens left cur =
     (if cur < length tokens then
        (if r = 0 then Some (Inl RecursionError)
         else if get_ttype (tokens ! cur) \<in> {ASTERISK, FSLASH} then
           (case parse_factor_limited_fuel fuel r tokens (cur + 1) of
              None \<Rightarrow> None
            | Some (Inl e) \<Rightarrow> Some (Inl e)
            | Some (Inr (right, cur')) \<Rightarrow>
                term_loop_limited fuel r tokens (Expr left (tokens ! cur) right) cur')
         else Some (Inr (left, cur)))
      else Some (Inr (left, cur)))"
| "parse_factor_limited_fuel 0 d tokens cur = None"
| "parse_factor_limited_fuel (Suc fuel) d tokens cur =
     (if d = 0 then Some (Inl RecursionError)
      else if length tokens \<le> cur then Some (Inl IndexError)
      else if d - 1 = 0 then Some (Inl RecursionError)
      else let token = tokens ! cur in
        if get_ttype token = NUM then Some (Inr (Leaf token, cur + 1))
        else if get_ttype token = LBRACKET then
          (case parse_expression_limited_fuel fuel (d - 1) tokens (cur + 1) of
             None \<Rightarrow> None
           | Some (Inl e) \<Rightarrow> Some (Inl e)
           | Some (Inr (expr, cur')) \<Rightarrow>
               (case consume_token_limited (d - 1) tokens cur' RBRACKET
                       ''Expected closing bracket'' of
                  Inl e \<Rightarrow> Some (Inl e)
                | Inr cur'' \<Rightarrow> Some (Inr (expr, cur''))))
        else Some (Inl (ValueError ''Unexpected token'')))"
  by pat_completeness auto
termination
  by (relation "measure (\<lambda>x. case x of
        Inl (Inl (fuel, _, _, _)) \<Rightarrow> fuel
      | Inl (Inr (fuel, _, _, _, _)) \<Rightarrow> fuel
      | Inr (Inl (fuel, _, _, _)) \<Rightarrow> fuel
      | Inr (Inr (Inl (fuel, _, _, _, _))) \<Rightarrow> fuel
      | Inr (Inr (Inr (fuel, _, _, _))) \<Rightarrow> fuel)") auto


definition parse_expression_limited :: "nat \<Rightarrow> Token list \<Rightarrow> nat \<Rightarrow> error + node \<times> nat" where
  "parse_expression_limited d tokens cur =
     the (parse_expression_limited_fuel (enough tokens cur) d tokens cur)"


text \<open>
  More fuel changes no result, and with the same fuel the bounded parser returns what the
  unbounded one returns, or raises \<open>RecursionError\<close>. Hence the fuel that is enough for
  \<open>parse_expression\<close> is enough under every limit.
\<close>

lemma limited_fuel_mono_all:
  "\<forall>m d ts l c r. n \<le> m \<longrightarrow>
     (parse_expression_limited_fuel n d ts c = Some r \<longrightarrow>
        parse_expression_limited_fuel m d ts c = Some r) \<and>
     (expression_loop_limited n d ts l c = Some r \<longrightarrow>
        expression_loop_limited m d ts l c = Some r) \<and>
     (parse_term_limited_fuel n d ts c = Some r \<longrightarrow> parse_term_limited_fuel m d ts c = Some r) \<and>
     (term_loop_limited n d ts l c = Some r \<longrightarrow> term_loop_limited m d ts l c = Some r) \<and>
     (parse_factor_limited_fuel n d ts c = Some r \<longrightarrow>
        parse_factor_limited_fuel m d ts c = Some r)"
proof (induction n)
  case 0
  show ?case by simp
next
  case (Suc n)
  show ?case
  proof (intro allI impI)
    fix m d ts l c r
    assume "Suc n \<le> m"
    then obtain m' where m: "m = Suc m'" and le: "n \<le> m'" by (cases m) auto
    have pe: "\<And>d ts c r. parse_expression_limited_fuel n d ts c = Some r \<Longrightarrow>
        parse_expression_limited_fuel m' d ts c = Some r"
      using Suc.IH le by blast
    have el: "\<And>d ts l c r. expression_loop_limited n d ts l c = Some r \<Longrightarrow>
        expression_loop_limited m' d ts l c = Some r"
      using Suc.IH le by blast
    have pt: "\<And>d ts c r. parse_term_limited_fuel n d ts c = Some r \<Longrightarrow>
        parse_term_limited_fuel m' d ts c = Some r"
      using Suc.IH le by blast
    have tl: "\<And>d ts l c r. term_loop_limited n d ts l c = Some r \<Longrightarrow>
        term_loop_limited m' d ts l c = Some r"
      using Suc.IH le by blast
    have pf: "\<And>d ts c r. parse_factor_limited_fuel n d ts c = Some r \<Longrightarrow>
        parse_factor_limited_fuel m' d ts c = Some r"
      using Suc.IH le by blast
    have 1: "parse_expression_limited_fuel (Suc n) d ts c = Some r \<longrightarrow>
        parse_expression_limited_fuel m d ts c = Some r"
      unfolding m by (auto split: option.splits sum.splits dest!: pt el)
    have 2: "expression_loop_limited (Suc n) d ts l c = Some r \<longrightarrow>
        expression_loop_limited m d ts l c = Some r"
      unfolding m by (auto split: option.splits sum.splits if_splits dest!: pt el)
    have 3: "parse_term_limited_fuel (Suc n) d ts c = Some r \<longrightarrow>
        parse_term_limited_fuel m d ts c = Some r"
      unfolding m by (auto split: option.splits sum.splits dest!: pf tl)
    have 4: "term_loop_limited (Suc n) d ts l c = Some r \<longrightarrow>
        term_loop_limited m d ts l c = Some r"
      unfolding m by (auto split: option.splits sum.splits if_splits dest!: pf tl)
    have 5: "parse_factor_limited_fuel (Suc n) d ts c = Some r \<longrightarrow>
        parse_factor_limited_fuel m d ts c = Some r"
      unfolding m by (auto simp: Let_def split: option.splits sum.splits if_splits dest!: pe)
    from 1 2 3 4 5
    show "(parse_expression_limited_fuel (Suc n) d ts c = Some r \<longrightarrow>
        parse_expression_limited_fuel m d ts c = Some r) \<and>
     (expression_loop_limited (Suc n) d ts l c = Some r \<longrightarrow>
        expression_loop_limited m d ts l c = Some r) \<and>
     (parse_term_limited_fuel (Suc n) d ts c = Some r \<longrightarrow>
        parse_term_limited_fuel m d ts c = Some r) \<and>
     (term_loop_limited (Suc n) d ts l c = Some r \<longrightarrow> term_loop_limited m d ts l c = Some r) \<and>
     (parse_factor_limited_fuel (Suc n) d ts c = Some r \<longrightarrow>
        parse_factor_limited_fuel m d ts c = Some r)"
      by blast
  qed
qed

lemma limited_fuel_cases_all:
  "\<forall>d ts l c r.
     (parse_expression_fuel n ts c = Some r \<longrightarrow>
        parse_expression_limited_fuel n d ts c = Some r \<or>
        parse_expression_limited_fuel n d ts c = Some (Inl RecursionError)) \<and>
     (expression_loop n ts l c = Some r \<longrightarrow>
        expression_loop_limited n d ts l c = Some r \<or>
        expression_loop_limited n d ts l c = Some (Inl RecursionError)) \<and>
     (parse_term_fuel n ts c = Some r \<longrightarrow>
        parse_term_limited_fuel n d ts c = Some r \<or>
        parse_term_limited_fuel n d ts c = Some (Inl RecursionError)) \<and>
     (term_loop n ts l c = Some r \<longrightarrow>
        term_loop_limited n d ts l c = Some r \<or>
        term_loop_limited n d ts l c = Some (Inl RecursionError)) \<and>
     (parse_factor_fuel n ts c = Some r \<longrightarrow>
        parse_factor_limited_fuel n d ts c = Some r \<or>
        parse_factor_limited_fuel n d ts c = Some (Inl RecursionError))"
proof (induction n)
  case 0
  show ?case by simp
next
  case (Suc n)
  have pe: "parse_expression_limited_fuel n d ts c = Some r \<or>
      parse_expression_limited_fuel n d ts c = Some (Inl RecursionError)"
    if "parse_expression_fuel n ts c = Some r" for d ts c r
    using Suc.IH that by blast
  have el: "expression_loop_limited n d ts l c = Some r \<or>
      expression_loop_limited n d ts l c = Some (Inl RecursionError)"
    if "expression_loop n ts l c = Some r" for d ts l c r
    using Suc.IH that by blast
  have pt: "parse_term_limited_fuel n d ts c = Some r \<or>
      parse_term_limited_fuel n d ts c = Some (Inl RecursionError)"
    if "parse_term_fuel n ts c = Some r" for d ts c r
    using Suc.IH that by blast
  have tl: "term_loop_limited n d ts l c = Some r \<or>
      term_loop_limited n d ts l c = Some (Inl RecursionError)"
    if "term_loop n ts l c = Some r" for d ts l c r
    using Suc.IH that by blast
  have pf: "parse_factor_limited_fuel n d ts c = Some r \<or>
      parse_factor_limited_fuel n d ts c = Some (Inl RecursionError)"
    if "parse_factor_fuel n ts c = Some r" for d ts c r
    using Suc.IH that by blast
  show ?case
  proof (intro allI conjI impI)
    fix d :: nat and ts :: "Token list" and c :: nat and r
    assume a: "parse_expression_fuel (Suc n) ts c = Some r"
    then obtain x where x: "parse_term_fuel n ts c = Some x" by (auto split: option.splits)
    show "parse_expression_limited_fuel (Suc n) d ts c = Some r \<or>
        parse_expression_limited_fuel (Suc n) d ts c = Some (Inl RecursionError)"
    proof (cases "d = 0")
      case True
      then show ?thesis by simp
    next
      case False
      from pt [OF x, of "d - 1"] show ?thesis
      proof
        assume "parse_term_limited_fuel n (d - 1) ts c = Some (Inl RecursionError)"
        with False show ?thesis by simp
      next
        assume y: "parse_term_limited_fuel n (d - 1) ts c = Some x"
        show ?thesis
        proof (cases x)
          case (Inl e)
          with a x y False show ?thesis by auto
        next
          case (Inr p)
          obtain left c' where p: "p = (left, c')" by (cases p)
          from a x Inr p have "expression_loop n ts left c' = Some r" by simp
          from el [OF this, of "d - 1"] y Inr p False show ?thesis by auto
        qed
      qed
    qed
  next
    fix d :: nat and ts :: "Token list" and l :: node and c :: nat and r
    assume a: "expression_loop (Suc n) ts l c = Some r"
    show "expression_loop_limited (Suc n) d ts l c = Some r \<or>
        expression_loop_limited (Suc n) d ts l c = Some (Inl RecursionError)"
    proof (cases "c < length ts")
      case False
      with a show ?thesis by simp
    next
      case lt: True
      show ?thesis
      proof (cases "d = 0")
        case True
        with lt show ?thesis by simp
      next
        case False
        show ?thesis
        proof (cases "get_ttype (ts ! c) \<in> {PLUS, MINUS}")
          case False
          with a lt \<open>d \<noteq> 0\<close> show ?thesis by simp
        next
          case True
          with a lt obtain x where x: "parse_term_fuel n ts (c + 1) = Some x"
            by (auto split: option.splits)
          from pt [OF x, of d] show ?thesis
          proof
            assume "parse_term_limited_fuel n d ts (c + 1) = Some (Inl RecursionError)"
            with lt True \<open>d \<noteq> 0\<close> show ?thesis by simp
          next
            assume y: "parse_term_limited_fuel n d ts (c + 1) = Some x"
            show ?thesis
            proof (cases x)
              case (Inl e)
              with a x y lt True \<open>d \<noteq> 0\<close> show ?thesis by auto
            next
              case (Inr p)
              obtain right c' where p: "p = (right, c')" by (cases p)
              from a x Inr p lt True
              have "expression_loop n ts (Expr l (ts ! c) right) c' = Some r" by simp
              from el [OF this, of d] y Inr p lt True \<open>d \<noteq> 0\<close> show ?thesis by auto
            qed
          qed
        qed
      qed
    qed
  next
    fix d :: nat and ts :: "Token list" and c :: nat and r
    assume a: "parse_term_fuel (Suc n) ts c = Some r"
    then obtain x where x: "parse_factor_fuel n ts c = Some x" by (auto split: option.splits)
    show "parse_term_limited_fuel (Suc n) d ts c = Some r \<or>
        parse_term_limited_fuel (Suc n) d ts c = Some (Inl RecursionError)"
    proof (cases "d = 0")
      case True
      then show ?thesis by simp
    next
      case False
      from pf [OF x, of "d - 1"] show ?thesis
      proof
        assume "parse_factor_limited_fuel n (d - 1) ts c = Some (Inl RecursionError)"
        with False show ?thesis by simp
      next
        assume y: "parse_factor_limited_fuel n (d - 1) ts c = Some x"
        show ?thesis
        proof (cases x)
          case (Inl e)
          with a x y False show ?thesis by auto
        next
          case (Inr p)
          obtain left c' where p: "p = (left, c')" by (cases p)
          from a x Inr p have "term_loop n ts left c' = Some r" by simp
          from tl [OF this, of "d - 1"] y Inr p False show ?thesis by auto
        qed
      qed
    qed
  next
    fix d :: nat and ts :: "Token list" and l :: node and c :: nat and r
    assume a: "term_loop (Suc n) ts l c = Some r"
    show "term_loop_limited (Suc n) d ts l c = Some r \<or>
        term_loop_limited (Suc n) d ts l c = Some (Inl RecursionError)"
    proof (cases "c < length ts")
      case False
      with a show ?thesis by simp
    next
      case lt: True
      show ?thesis
      proof (cases "d = 0")
        case True
        with lt show ?thesis by simp
      next
        case False
        show ?thesis
        proof (cases "get_ttype (ts ! c) \<in> {ASTERISK, FSLASH}")
          case False
          with a lt \<open>d \<noteq> 0\<close> show ?thesis by simp
        next
          case True
          with a lt obtain x where x: "parse_factor_fuel n ts (c + 1) = Some x"
            by (auto split: option.splits)
          from pf [OF x, of d] show ?thesis
          proof
            assume "parse_factor_limited_fuel n d ts (c + 1) = Some (Inl RecursionError)"
            with lt True \<open>d \<noteq> 0\<close> show ?thesis by simp
          next
            assume y: "parse_factor_limited_fuel n d ts (c + 1) = Some x"
            show ?thesis
            proof (cases x)
              case (Inl e)
              with a x y lt True \<open>d \<noteq> 0\<close> show ?thesis by auto
            next
              case (Inr p)
              obtain right c' where p: "p = (right, c')" by (cases p)
              from a x Inr p lt True
              have "term_loop n ts (Expr l (ts ! c) right) c' = Some r" by simp
              from tl [OF this, of d] y Inr p lt True \<open>d \<noteq> 0\<close> show ?thesis by auto
            qed
          qed
        qed
      qed
    qed
  next
    fix d :: nat and ts :: "Token list" and c :: nat and r
    assume a: "parse_factor_fuel (Suc n) ts c = Some r"
    show "parse_factor_limited_fuel (Suc n) d ts c = Some r \<or>
        parse_factor_limited_fuel (Suc n) d ts c = Some (Inl RecursionError)"
    proof (cases "d = 0 \<or> (c < length ts \<and> d - 1 = 0)")
      case True
      then show ?thesis by auto
    next
      case d: False
      show ?thesis
      proof (cases "c < length ts \<and> get_ttype (ts ! c) = LBRACKET")
        case False
        with a d show ?thesis by (auto simp: Let_def)
      next
        case True
        with a obtain x where x: "parse_expression_fuel n ts (c + 1) = Some x"
          by (auto simp: Let_def split: option.splits)
        from pe [OF x, of "d - 1"] show ?thesis
        proof
          assume "parse_expression_limited_fuel n (d - 1) ts (c + 1) = Some (Inl RecursionError)"
          with True d show ?thesis by (simp add: Let_def)
        next
          assume y: "parse_expression_limited_fuel n (d - 1) ts (c + 1) = Some x"
          show ?thesis
          proof (cases x)
            case (Inl e)
            with a x y True d show ?thesis by (auto simp: Let_def)
          next
            case (Inr p)
            obtain expr c' where p: "p = (expr, c')" by (cases p)
            have "consume_token_limited (d - 1) ts c' RBRACKET ''Expected closing bracket'' =
                consume_token ts c' RBRACKET ''Expected closing bracket'' \<or>
              consume_token_limited (d - 1) ts c' RBRACKET ''Expected closing bracket'' =
                Inl RecursionError"
              by (simp add: consume_token_limited_def consume_token_def)
            with a x y Inr p True d show ?thesis
              by (auto simp: Let_def split: sum.splits)
          qed
        qed
      qed
    qed
  qed
qed

lemma parse_expression_limited_fuel_mono:
  "parse_expression_limited_fuel n d ts c = Some r \<Longrightarrow> n \<le> m \<Longrightarrow>
   parse_expression_limited_fuel m d ts c = Some r"
  using limited_fuel_mono_all [of n] by blast

lemma parse_term_limited_fuel_mono:
  "parse_term_limited_fuel n d ts c = Some r \<Longrightarrow> n \<le> m \<Longrightarrow>
   parse_term_limited_fuel m d ts c = Some r"
  using limited_fuel_mono_all [of n] by blast

lemma parse_factor_limited_fuel_mono:
  "parse_factor_limited_fuel n d ts c = Some r \<Longrightarrow> n \<le> m \<Longrightarrow>
   parse_factor_limited_fuel m d ts c = Some r"
  using limited_fuel_mono_all [of n] by blast

lemma expression_loop_limited_mono:
  "expression_loop_limited n d ts l c = Some r \<Longrightarrow> n \<le> m \<Longrightarrow>
   expression_loop_limited m d ts l c = Some r"
  using limited_fuel_mono_all [of n] by blast

lemma term_loop_limited_mono:
  "term_loop_limited n d ts l c = Some r \<Longrightarrow> n \<le> m \<Longrightarrow>
   term_loop_limited m d ts l c = Some r"
  using limited_fuel_mono_all [of n] by blast

lemma parse_expression_limited_fuel_enough:
  "parse_expression_limited_fuel (enough ts c) d ts c = Some (parse_expression ts c) \<or>
   parse_expression_limited_fuel (enough ts c) d ts c = Some (Inl RecursionError)"
proof -
  obtain r where r: "parse_expression_fuel (enough ts c) ts c = Some r"
    using parse_expression_fuel_enough by blast
  then have "parse_expression ts c = r" by (rule parse_expression_fuel_result)
  with r limited_fuel_cases_all [of "enough ts c"] show ?thesis by blast
qed

lemma parse_expression_limited_cases:
  "parse_expression_limited d ts c = parse_expression ts c \<or>
   parse_expression_limited d ts c = Inl RecursionError"
  using parse_expression_limited_fuel_enough [of ts c d]
  by (auto simp: parse_expression_limited_def)

lemma parse_expression_limited_fuel_result:
  assumes "parse_expression_limited_fuel n d ts c = Some r"
  shows "parse_expression_limited d ts c = r"
proof -
  obtain r' where r': "parse_expression_limited_fuel (enough ts c) d ts c = Some r'"
    using parse_expression_limited_fuel_enough [of ts c d] by blast
  have "parse_expression_limited_fuel (max n (enough ts c)) d ts c = Some r"
    by (rule parse_expression_limited_fuel_mono [OF assms]) simp
  moreover have "parse_expression_limited_fuel (max n (enough ts c)) d ts c = Some r'"
    by (rule parse_expression_limited_fuel_mono [OF r']) simp
  ultimately have "r' = r" by simp
  with r' show ?thesis by (simp add: parse_expression_limited_def)
qed


subsection \<open>The depth of the brackets\<close>

text \<open>
  \<open>nesting k ts\<close> is the largest number of brackets open at once while \<open>ts\<close> is read with
  \<open>k\<close> of them open at the start; \<open>bracket_depth\<close> starts with none. A bracket level costs
  three frames (\<open>parse_expression\<close>, \<open>parse_term\<close>, \<open>parse_factor\<close>), the innermost factor
  one more for its getter.
\<close>

fun nesting :: "nat \<Rightarrow> Token list \<Rightarrow> nat" where
  "nesting k [] = k"
| "nesting k (tok # ts) =
     max k (nesting (if get_ttype tok = LBRACKET then k + 1
                     else if get_ttype tok = RBRACKET then k - 1 else k) ts)"

definition bracket_depth :: "Token list \<Rightarrow> nat" where
  "bracket_depth ts = nesting 0 ts"

lemma nesting_ge: "k \<le> nesting k ts"
  by (cases ts) simp_all

lemma nesting_grammar:
  "grammar_factor ts t \<Longrightarrow>
     nesting k (ts @ rest) = max (nesting k ts) (nesting k rest) \<and>
     nesting (Suc k) ts = Suc (nesting k ts)"
  "grammar_term ts t \<Longrightarrow>
     nesting k (ts @ rest) = max (nesting k ts) (nesting k rest) \<and>
     nesting (Suc k) ts = Suc (nesting k ts)"
  "grammar_expression ts t \<Longrightarrow>
     nesting k (ts @ rest) = max (nesting k ts) (nesting k rest) \<and>
     nesting (Suc k) ts = Suc (nesting k ts)"
proof (induction arbitrary: k rest and k rest and k rest
    rule: grammar_factor_grammar_term_grammar_expression.inducts)
  case (num_factor tok)
  then show ?case using nesting_ge [of k rest] by simp
next
  case (group_factor ts t lb rb)
  have a: "nesting j (ts @ xs) = max (nesting j ts) (nesting j xs)" for j xs
    using group_factor.IH by blast
  have s: "nesting (Suc j) ts = Suc (nesting j ts)" for j
    using group_factor.IH by blast
  have g: "Suc j \<le> nesting (Suc j) ts" for j by (rule nesting_ge)
  have r: "k \<le> nesting k rest" by (rule nesting_ge)
  from group_factor.hyps have lb: "get_ttype lb = LBRACKET" and rb: "get_ttype rb = RBRACKET"
    and nl: "get_ttype rb \<noteq> LBRACKET" by simp_all
  have 1: "nesting k ((lb # ts @ [rb]) @ rest) =
      max k (max (nesting (Suc k) ts) (max (Suc k) (nesting k rest)))"
    using a [of "Suc k" "rb # rest"] lb rb by simp
  have 2: "nesting j (lb # ts @ [rb]) = max j (max (nesting (Suc j) ts) (Suc j))" for j
    using a [of "Suc j" "[rb]"] lb rb by simp
  show ?case
    unfolding 1 2 using g [of k] g [of "Suc k"] r s [of "Suc k"] s [of k] by simp
next
  case (factor_term ts t)
  then show ?case by blast
next
  case (product_term ts t op us u)
  have a: "nesting j (ts @ xs) = max (nesting j ts) (nesting j xs)" for j xs
    using product_term.IH(1) by blast
  have b: "nesting j (us @ xs) = max (nesting j us) (nesting j xs)" for j xs
    using product_term.IH(2) by blast
  have s: "nesting (Suc j) ts = Suc (nesting j ts)" "nesting (Suc j) us = Suc (nesting j us)" for j
    using product_term.IH by blast+
  from product_term.hyps have op: "get_ttype op \<noteq> LBRACKET" "get_ttype op \<noteq> RBRACKET" by auto
  have g: "j \<le> nesting j ts" "j \<le> nesting j us" for j by (rule nesting_ge)+
  have 1: "nesting j ((ts @ op # us) @ xs) =
      max (nesting j ts) (max (nesting j us) (nesting j xs))" for j xs
    using a [of j "op # us @ xs"] b [of j xs] op g [of j] by simp
  have 2: "nesting j (ts @ op # us) = max (nesting j ts) (nesting j us)" for j
    using a [of j "op # us"] op g [of j] by simp
  show ?case unfolding 1 2 s by simp
next
  case (term_expression ts t)
  then show ?case by blast
next
  case (sum_expression ts t op us u)
  have a: "nesting j (ts @ xs) = max (nesting j ts) (nesting j xs)" for j xs
    using sum_expression.IH(1) by blast
  have b: "nesting j (us @ xs) = max (nesting j us) (nesting j xs)" for j xs
    using sum_expression.IH(2) by blast
  have s: "nesting (Suc j) ts = Suc (nesting j ts)" "nesting (Suc j) us = Suc (nesting j us)" for j
    using sum_expression.IH by blast+
  from sum_expression.hyps have op: "get_ttype op \<noteq> LBRACKET" "get_ttype op \<noteq> RBRACKET" by auto
  have g: "j \<le> nesting j ts" "j \<le> nesting j us" for j by (rule nesting_ge)+
  have 1: "nesting j ((ts @ op # us) @ xs) =
      max (nesting j ts) (max (nesting j us) (nesting j xs))" for j xs
    using a [of j "op # us @ xs"] b [of j xs] op g [of j] by simp
  have 2: "nesting j (ts @ op # us) = max (nesting j ts) (nesting j us)" for j
    using a [of j "op # us"] op g [of j] by simp
  show ?case unfolding 1 2 s by simp
qed

lemma bracket_depth_group:
  "grammar_expression ts t \<Longrightarrow> get_ttype lb = LBRACKET \<Longrightarrow> get_ttype rb = RBRACKET \<Longrightarrow>
   bracket_depth (lb # ts @ [rb]) = Suc (bracket_depth ts)"
proof -
  assume g: "grammar_expression ts t" and lb: "get_ttype lb = LBRACKET"
    and rb: "get_ttype rb = RBRACKET"
  from nesting_grammar(3) [OF g, of 1 "[rb]"] nesting_grammar(3) [OF g, of 0 "[]"]
    nesting_ge [of 1 ts] lb rb
  show ?thesis by (simp add: bracket_depth_def)
qed

lemma bracket_depth_product:
  assumes "grammar_term ts t" and "get_ttype op \<in> {ASTERISK, FSLASH}"
  shows "bracket_depth (ts @ op # us) = max (bracket_depth ts) (bracket_depth us)"
proof -
  from assms(2) have "get_ttype op \<noteq> LBRACKET" and "get_ttype op \<noteq> RBRACKET" by auto
  with nesting_grammar(2) [OF assms(1), of 0 "op # us"] show ?thesis
    by (simp add: bracket_depth_def)
qed

lemma bracket_depth_sum:
  assumes "grammar_expression ts t" and "get_ttype op \<in> {PLUS, MINUS}"
  shows "bracket_depth (ts @ op # us) = max (bracket_depth ts) (bracket_depth us)"
proof -
  from assms(2) have "get_ttype op \<noteq> LBRACKET" and "get_ttype op \<noteq> RBRACKET" by auto
  with nesting_grammar(3) [OF assms(1), of 0 "op # us"] show ?thesis
    by (simp add: bracket_depth_def)
qed

lemma term_loop_limited_stop:
  "\<not> starts_with {ASTERISK, FSLASH} post \<Longrightarrow> r \<noteq> 0 \<Longrightarrow>
   term_loop_limited (Suc 0) r (pre @ ts @ post) t (length pre + length ts) =
     Some (Inr (t, length pre + length ts))"
  by (cases post) (auto simp: starts_with_def nth_append)

lemma expression_loop_limited_stop:
  "\<not> starts_with {PLUS, MINUS} post \<Longrightarrow> r \<noteq> 0 \<Longrightarrow>
   expression_loop_limited (Suc 0) r (pre @ ts @ post) t (length pre + length ts) =
     Some (Inr (t, length pre + length ts))"
  by (cases post) (auto simp: starts_with_def nth_append)

lemma grammar_complete_limited:
  "grammar_factor ts t \<Longrightarrow> 3 * bracket_depth ts + 2 \<le> d \<Longrightarrow>
     \<exists>n. parse_factor_limited_fuel n d (pre @ ts @ post) (length pre) =
            Some (Inr (t, length pre + length ts))"
  "grammar_term ts t \<Longrightarrow> 3 * bracket_depth ts + 2 \<le> r \<Longrightarrow>
     term_loop_limited m r (pre @ ts @ post) t (length pre + length ts) = Some res \<Longrightarrow>
     \<exists>n. parse_term_limited_fuel n (Suc r) (pre @ ts @ post) (length pre) = Some res"
  "grammar_expression ts t \<Longrightarrow> \<not> starts_with {ASTERISK, FSLASH} post \<Longrightarrow>
     3 * bracket_depth ts + 3 \<le> r \<Longrightarrow>
     expression_loop_limited m r (pre @ ts @ post) t (length pre + length ts) = Some res \<Longrightarrow>
     \<exists>n. parse_expression_limited_fuel n (Suc r) (pre @ ts @ post) (length pre) = Some res"
proof (induction ts t and ts t and ts t
    arbitrary: d pre post and r pre post m res and r pre post m res
    rule: grammar_factor_grammar_term_grammar_expression.inducts)
  case (num_factor tok)
  then have "d \<noteq> 0" and "d - 1 \<noteq> 0" by simp_all
  with num_factor.hyps
  have "parse_factor_limited_fuel (Suc 0) d (pre @ [tok] @ post) (length pre) =
      Some (Inr (Leaf tok, length pre + length [tok]))"
    by (simp add: Let_def nth_append)
  then show ?case by blast
next
  case (group_factor ts t lb rb)
  let ?all = "pre @ (lb # ts @ [rb]) @ post"
  have eq: "?all = (pre @ [lb]) @ ts @ (rb # post)" by simp
  have bd: "bracket_depth (lb # ts @ [rb]) = Suc (bracket_depth ts)"
    using group_factor.hyps by (rule bracket_depth_group)
  with group_factor.prems obtain r where r: "d = Suc (Suc r)"
    and rb: "3 * bracket_depth ts + 3 \<le> r"
    by (cases d; cases "d - 1") auto
  from rb have r0: "r \<noteq> 0" by simp
  have stop: "expression_loop_limited (Suc 0) r ((pre @ [lb]) @ ts @ (rb # post)) t
      (length (pre @ [lb]) + length ts) = Some (Inr (t, length (pre @ [lb]) + length ts))"
    using group_factor.hyps r0 by (intro expression_loop_limited_stop) (simp_all add: starts_with_def)
  have "\<not> starts_with {ASTERISK, FSLASH} (rb # post)"
    using group_factor.hyps by (simp add: starts_with_def)
  from group_factor.IH [OF this rb stop] obtain n where
    n: "parse_expression_limited_fuel n (d - 1) ?all (length pre + 1) =
          Some (Inr (t, length pre + 1 + length ts))"
    by (auto simp: eq r)
  have tok_rb: "?all ! (length pre + 1 + length ts) = rb"
    by (simp add: nth_append)
  have tok_lb: "?all ! length pre = lb" by (simp add: nth_append)
  have ct: "consume_token_limited (d - 1) ?all (length pre + 1 + length ts) RBRACKET
      ''Expected closing bracket'' = Inr (length pre + 1 + length ts + 1)"
    using tok_rb group_factor.hyps r r0
    by (simp add: consume_token_limited_def del: append.simps append_assoc)
  from r have d0: "d \<noteq> 0" "d - 1 \<noteq> 0" by auto
  have "parse_factor_limited_fuel (Suc n) d ?all (length pre) =
      Some (Inr (t, length pre + length (lb # ts @ [rb])))"
    using n ct tok_lb d0 group_factor.hyps
    by (simp add: Let_def del: append.simps append_assoc)
  then show ?case by blast
next
  case (factor_term ts t)
  from factor_term.IH [OF factor_term.prems(1), of pre post] obtain n where
    n: "parse_factor_limited_fuel n r (pre @ ts @ post) (length pre) =
          Some (Inr (t, length pre + length ts))"
    by blast
  let ?k = "max n m"
  from n have "parse_factor_limited_fuel ?k r (pre @ ts @ post) (length pre) =
      Some (Inr (t, length pre + length ts))"
    by (rule parse_factor_limited_fuel_mono) simp
  moreover from factor_term.prems(2)
  have "term_loop_limited ?k r (pre @ ts @ post) t (length pre + length ts) = Some res"
    by (rule term_loop_limited_mono) simp
  ultimately have "parse_term_limited_fuel (Suc ?k) (Suc r) (pre @ ts @ post) (length pre) = Some res"
    by simp
  then show ?case by blast
next
  case (product_term ts t op us u)
  let ?all = "pre @ (ts @ op # us) @ post"
  have eq1: "?all = pre @ ts @ (op # us @ post)" by simp
  have eq2: "?all = (pre @ ts @ [op]) @ us @ post" by simp
  have bd: "bracket_depth (ts @ op # us) = max (bracket_depth ts) (bracket_depth us)"
    using product_term.hyps(1,2) by (rule bracket_depth_product)
  with product_term.prems(1) have b1: "3 * bracket_depth ts + 2 \<le> r"
    and b2: "3 * bracket_depth us + 2 \<le> r" by simp_all
  from b1 have r0: "r \<noteq> 0" by simp
  from product_term.IH(2) [OF b2, of "pre @ ts @ [op]" post] obtain n where
    n: "parse_factor_limited_fuel n r ?all (length pre + length ts + 1) =
          Some (Inr (u, length pre + length ts + 1 + length us))"
    unfolding eq2 [symmetric] by (auto simp: add.assoc)
  have op: "?all ! (length pre + length ts) = op" by (simp add: nth_append)
  let ?k = "max n m"
  from n have n': "parse_factor_limited_fuel ?k r ?all (length pre + length ts + 1) =
          Some (Inr (u, length pre + length ts + 1 + length us))"
    by (rule parse_factor_limited_fuel_mono) simp
  from product_term.prems(2)
  have "term_loop_limited ?k r ?all (Expr t op u) (length pre + length (ts @ op # us)) = Some res"
    by (rule term_loop_limited_mono) simp
  then have "term_loop_limited ?k r ?all (Expr t op u) (length pre + length ts + 1 + length us) =
      Some res"
    by (simp add: add.assoc)
  with n' op r0 product_term.hyps
  have "term_loop_limited (Suc ?k) r ?all t (length pre + length ts) = Some res"
    by (simp del: append.simps append_assoc)
  then have "term_loop_limited (Suc ?k) r (pre @ ts @ (op # us @ post)) t (length pre + length ts) =
      Some res"
    by (simp only: eq1)
  from product_term.IH(1) [OF b1 this] show ?case by (simp only: eq1)
next
  case (term_expression ts t)
  from term_expression.prems(2) obtain r' where r': "r = Suc r'"
    and b: "3 * bracket_depth ts + 2 \<le> r'" by (cases r) auto
  from b have "r' \<noteq> 0" by simp
  with term_expression.prems(1)
  have "term_loop_limited (Suc 0) r' (pre @ ts @ post) t (length pre + length ts) =
      Some (Inr (t, length pre + length ts))"
    by (rule term_loop_limited_stop)
  from term_expression.IH [OF b this] obtain n where
    n: "parse_term_limited_fuel n r (pre @ ts @ post) (length pre) =
          Some (Inr (t, length pre + length ts))"
    unfolding r' by blast
  let ?k = "max n m"
  from n have "parse_term_limited_fuel ?k r (pre @ ts @ post) (length pre) =
      Some (Inr (t, length pre + length ts))"
    by (rule parse_term_limited_fuel_mono) simp
  moreover from term_expression.prems(3)
  have "expression_loop_limited ?k r (pre @ ts @ post) t (length pre + length ts) = Some res"
    by (rule expression_loop_limited_mono) simp
  ultimately
  have "parse_expression_limited_fuel (Suc ?k) (Suc r) (pre @ ts @ post) (length pre) = Some res"
    by simp
  then show ?case by blast
next
  case (sum_expression ts t op us u)
  let ?all = "pre @ (ts @ op # us) @ post"
  have eq1: "?all = pre @ ts @ (op # us @ post)" by simp
  have eq2: "?all = (pre @ ts @ [op]) @ us @ post" by simp
  have bd: "bracket_depth (ts @ op # us) = max (bracket_depth ts) (bracket_depth us)"
    using sum_expression.hyps(1,2) by (rule bracket_depth_sum)
  with sum_expression.prems(2) have b1: "3 * bracket_depth ts + 3 \<le> r"
    and b2': "3 * bracket_depth us + 3 \<le> r" by simp_all
  then obtain r' where r': "r = Suc r'" and b2: "3 * bracket_depth us + 2 \<le> r'"
    by (cases r) auto
  from b2 have "r' \<noteq> 0" by simp
  with sum_expression.prems(1)
  have "term_loop_limited (Suc 0) r' ((pre @ ts @ [op]) @ us @ post) u
      (length (pre @ ts @ [op]) + length us) =
      Some (Inr (u, length (pre @ ts @ [op]) + length us))"
    by (rule term_loop_limited_stop)
  from sum_expression.IH(2) [OF b2 this] obtain n where
    n: "parse_term_limited_fuel n r ?all (length pre + length ts + 1) =
          Some (Inr (u, length pre + length ts + 1 + length us))"
    unfolding eq2 [symmetric] r' by (auto simp: add.assoc)
  have op: "?all ! (length pre + length ts) = op" by (simp add: nth_append)
  from r' have r0: "r \<noteq> 0" by simp
  let ?k = "max n m"
  from n have n': "parse_term_limited_fuel ?k r ?all (length pre + length ts + 1) =
          Some (Inr (u, length pre + length ts + 1 + length us))"
    by (rule parse_term_limited_fuel_mono) simp
  from sum_expression.prems(3)
  have "expression_loop_limited ?k r ?all (Expr t op u) (length pre + length (ts @ op # us)) =
      Some res"
    by (rule expression_loop_limited_mono) simp
  then have "expression_loop_limited ?k r ?all (Expr t op u)
      (length pre + length ts + 1 + length us) = Some res"
    by (simp add: add.assoc)
  with n' op r0 sum_expression.hyps
  have "expression_loop_limited (Suc ?k) r ?all t (length pre + length ts) = Some res"
    by (simp del: append.simps append_assoc)
  then have loop: "expression_loop_limited (Suc ?k) r (pre @ ts @ (op # us @ post)) t
      (length pre + length ts) = Some res"
    by (simp only: eq1)
  have "\<not> starts_with {ASTERISK, FSLASH} (op # us @ post)"
    using sum_expression.hyps by (auto simp: starts_with_def)
  from sum_expression.IH(1) [OF this b1 loop] show ?case by (simp only: eq1)
qed

lemma parse_expression_limited_complete:
  assumes "grammar_expression ts t" and "\<not> starts_with {PLUS, MINUS, ASTERISK, FSLASH} rest"
    and "3 * bracket_depth ts + 4 \<le> d"
  shows "parse_expression_limited d (ts @ rest) 0 = Inr (t, length ts)"
proof -
  from assms(2) have a: "\<not> starts_with {PLUS, MINUS} rest" and m: "\<not> starts_with {ASTERISK, FSLASH} rest"
    by (auto simp: starts_with_def)
  from assms(3) obtain r where d: "d = Suc r" and b: "3 * bracket_depth ts + 3 \<le> r"
    by (cases d) auto
  from b have "r \<noteq> 0" by simp
  with a have "expression_loop_limited (Suc 0) r ([] @ ts @ rest) t
      (length ([] :: Token list) + length ts) =
      Some (Inr (t, length ([] :: Token list) + length ts))"
    by (rule expression_loop_limited_stop)
  from grammar_complete_limited(3) [OF assms(1) m b this] obtain n where
    "parse_expression_limited_fuel n d (ts @ rest) 0 = Some (Inr (t, length ts))"
    unfolding d by auto
  then show ?thesis by (rule parse_expression_limited_fuel_result)
qed

subsection \<open>Scanner, evaluation and \<open>main\<close> under the limit\<close>

text \<open>
  The scanning loop runs in the body of \<open>main\<close>: at a digit it calls \<open>scan_num\<close> and then
  the constructor of \<open>Token\<close>, at a symbol the constructor only, at a blank nothing.
\<close>

function scan_loop_limited :: "nat \<Rightarrow> string \<Rightarrow> nat \<Rightarrow> Token list \<Rightarrow> error + Token list" where
  "scan_loop_limited d source cur tokens =
     (if cur < length source then
        (let c = source ! cur in
         if is_digit c then
           (if d = 0 then Inl RecursionError
            else case scan_num source cur of
              Inl e \<Rightarrow> Inl e
            | Inr cur' \<Rightarrow>
                scan_loop_limited d source (cur' + 1)
                  (tokens @ [Token NUM (Some (take (cur' + 1 - cur) (drop cur source)))
                               (cur' - cur + 1)]))
         else if c = CHR ''+'' then
           (if d = 0 then Inl RecursionError
            else scan_loop_limited d source (cur + 1) (tokens @ [Token PLUS None 1]))
         else if c = CHR ''-'' then
           (if d = 0 then Inl RecursionError
            else scan_loop_limited d source (cur + 1) (tokens @ [Token MINUS None 1]))
         else if c = CHR ''*'' then
           (if d = 0 then Inl RecursionError
            else scan_loop_limited d source (cur + 1) (tokens @ [Token ASTERISK None 1]))
         else if c = CHR ''/'' then
           (if d = 0 then Inl RecursionError
            else scan_loop_limited d source (cur + 1) (tokens @ [Token FSLASH None 1]))
         else if c = CHR ''('' then
           (if d = 0 then Inl RecursionError
            else scan_loop_limited d source (cur + 1) (tokens @ [Token LBRACKET None 1]))
         else if c = CHR '')'' then
           (if d = 0 then Inl RecursionError
            else scan_loop_limited d source (cur + 1) (tokens @ [Token RBRACKET None 1]))
         else if c = CHR ''.'' then
           (if d = 0 then Inl RecursionError
            else scan_loop_limited d source (cur + 1) (tokens @ [Token DOT None 1]))
         else if c = CHR '' '' then scan_loop_limited d source (cur + 1) tokens
         else Inl (ValueError []))
      else Inr tokens)"
  by pat_completeness auto
termination
proof (relation "measure (\<lambda>(d, source, cur, tokens). length source - cur)")
  show "wf (measure (\<lambda>(d, source, cur, tokens). length source - cur))" by simp
next
  fix d :: nat and source :: string and cur :: nat and tokens :: "Token list" and c cur'
  assume "cur < length source" and "scan_num source cur = Inr cur'"
  then have "cur \<le> cur'" by (simp add: scan_num_ge)
  with \<open>cur < length source\<close>
  show "((d, source, cur' + 1,
          tokens @ [Token NUM (Some (take (cur' + 1 - cur) (drop cur source))) (cur' - cur + 1)]),
         d, source, cur, tokens)
          \<in> measure (\<lambda>(d, source, cur, tokens). length source - cur)"
    by simp
qed auto

declare scan_loop_limited.simps [simp del]

definition scan_limited :: "nat \<Rightarrow> string \<Rightarrow> error + Token list" where
  "scan_limited d source = scan_loop_limited d source 0 []"

text \<open>
  Lines 183-188. \<open>tokens[0]\<close> is indexed before its getter is called.
\<close>

definition parse_limited :: "nat \<Rightarrow> Token list \<Rightarrow> error + node" where
  "parse_limited d tokens =
     (if tokens = [] then Inl IndexError
      else if d = 0 then Inl RecursionError
      else if get_ttype (tokens ! 0) = LBRACKET then
        (if get_ttype (last tokens) = RBRACKET then
           map_sum id fst (parse_expression_limited d (butlast (tl tokens)) 0)
         else Inl (ValueError ''Expected closing bracket''))
      else map_sum id fst (parse_expression_limited d tokens 0))"

text \<open>
  \<open>Expr.evaluate\<close>: the call itself takes a frame; in its body the call on a child that is
  an \<open>Expr\<close>, or else the getter of the child, and at the end the getter of the operator
  find one frame less. A \<open>Token\<close> has no method \<open>evaluate\<close>: the attribute is looked up
  before anything is called.
\<close>

fun evaluate_limited :: "nat \<Rightarrow> node \<Rightarrow> error + pyfloat" where
  "evaluate_limited d (Leaf t) = Inl AttributeError"
| "evaluate_limited d (Expr left op right) =
     (if d = 0 then Inl RecursionError
      else case (case left of
                   Expr _ _ _ \<Rightarrow> evaluate_limited (d - 1) left
                 | Leaf t \<Rightarrow> if d - 1 = 0 then Inl RecursionError else py_float (get_value t)) of
        Inl e \<Rightarrow> Inl e
      | Inr left_value \<Rightarrow>
          (case (case right of
                   Expr _ _ _ \<Rightarrow> evaluate_limited (d - 1) right
                 | Leaf t \<Rightarrow> if d - 1 = 0 then Inl RecursionError else py_float (get_value t)) of
             Inl e \<Rightarrow> Inl e
           | Inr right_value \<Rightarrow>
               if d - 1 = 0 then Inl RecursionError
               else (case get_ttype op of
                  PLUS \<Rightarrow> Inr (float_add left_value right_value)
                | MINUS \<Rightarrow> Inr (float_sub left_value right_value)
                | ASTERISK \<Rightarrow> Inr (float_mul left_value right_value)
                | FSLASH \<Rightarrow> float_truediv left_value right_value
                | _ \<Rightarrow> Inl (ValueError ''Unknown operator''))))"

fun height :: "node \<Rightarrow> nat" where
  "height (Leaf t) = 0"
| "height (Expr left op right) = Suc (max (height left) (height right))"

text \<open>
  \<open>print(ast)\<close> of line 189 formats the tree with \<open>Expr.__repr__\<close> (lines 53-54: the left
  child, the right child, then the operator) and \<open>Token.__repr__\<close> (lines 35-36). The
  latter formats a member of \<open>TokenType\<close>, which is the work of the library's \<open>Enum\<close>, not
  of \<open>prototype.py\<close>: the number \<open>e\<close> of frames that this takes is a parameter. The result
  is the error raised, if any; what is printed is not modelled.
\<close>

fun print_limited :: "nat \<Rightarrow> nat \<Rightarrow> node \<Rightarrow> error option" where
  "print_limited e d (Leaf t) = (if d < Suc e then Some RecursionError else None)"
| "print_limited e d (Expr left op right) =
     (if d = 0 then Some RecursionError
      else case print_limited e (d - 1) left of
        Some x \<Rightarrow> Some x
      | None \<Rightarrow>
          (case print_limited e (d - 1) right of
             Some x \<Rightarrow> Some x
           | None \<Rightarrow> if d - 1 < Suc e then Some RecursionError else None))"

text \<open>
  The pipeline of the three stages, and \<open>main\<close> with line 189 between parsing and
  evaluation.
\<close>

definition pipeline_limited :: "nat \<Rightarrow> string \<Rightarrow> error + pyfloat" where
  "pipeline_limited d source =
     (case scan_limited d source of
        Inl e \<Rightarrow> Inl e
      | Inr tokens \<Rightarrow>
          (case parse_limited d tokens of
             Inl e \<Rightarrow> Inl e
           | Inr ast \<Rightarrow> evaluate_limited d ast))"

definition main_limited :: "nat \<Rightarrow> nat \<Rightarrow> string \<Rightarrow> error + pyfloat" where
  "main_limited e d source =
     (case scan_limited d source of
        Inl e' \<Rightarrow> Inl e'
      | Inr tokens \<Rightarrow>
          (case parse_limited d tokens of
             Inl e' \<Rightarrow> Inl e'
           | Inr ast \<Rightarrow>
               (case print_limited e d ast of
                  Some e' \<Rightarrow> Inl e'
                | None \<Rightarrow> evaluate_limited d ast)))"

text \<open>
  Under every limit each stage returns what it returns without a limit, or raises
  \<open>RecursionError\<close>; so does \<open>main\<close>. Evaluation needs one frame for each level of the tree
  and one for the getters, printing those of \<open>Enum\<close> in addition.
\<close>

lemma scan_loop_limited_cases:
  "(0 < d \<longrightarrow> scan_loop_limited d source cur acc = scan_loop source cur acc) \<and>
   (scan_loop_limited d source cur acc = scan_loop source cur acc \<or>
    scan_loop_limited d source cur acc = Inl RecursionError)"
proof (induction "length source - cur" arbitrary: cur acc rule: less_induct)
  case less
  show ?case
  proof (cases "cur < length source")
    case False
    then show ?thesis
      by (simp add: scan_loop.simps [of source cur] scan_loop_limited.simps [of d source cur])
  next
    case lt: True
    then have m: "length source - (cur + 1) < length source - cur" by simp
    note IH = less.hyps [OF m]
    show ?thesis
    proof (cases "is_digit (source ! cur)")
      case True
      show ?thesis
      proof (cases "scan_num source cur")
        case (Inl e)
        with lt True show ?thesis
          by (simp add: scan_loop.simps [of source cur] scan_loop_limited.simps [of d source cur])
      next
        case (Inr c)
        then have "cur \<le> c" by (rule scan_num_ge)
        with lt have "length source - (c + 1) < length source - cur" by simp
        from less.hyps [OF this] Inr lt True show ?thesis
          by (simp add: scan_loop.simps [of source cur] scan_loop_limited.simps [of d source cur])
      qed
    next
      case False
      with lt IH show ?thesis
        by (auto simp: scan_loop.simps [of source cur] scan_loop_limited.simps [of d source cur]
            Let_def)
    qed
  qed
qed

lemma scan_limited_pos: "0 < d \<Longrightarrow> scan_limited d source = scan source"
  using scan_loop_limited_cases [of d source 0 "[]"] by (simp add: scan_limited_def scan_def)

lemma scan_limited_cases:
  "scan_limited d source = scan source \<or> scan_limited d source = Inl RecursionError"
  using scan_loop_limited_cases [of d source 0 "[]"] by (simp add: scan_limited_def scan_def)

lemma parse_limited_cases:
  "parse_limited d tokens = parse tokens \<or> parse_limited d tokens = Inl RecursionError"
  using parse_expression_limited_cases [of d tokens 0]
    parse_expression_limited_cases [of d "butlast (tl tokens)" 0]
  by (auto simp: parse_limited_def parse_def)

lemma evaluate_limited_cases:
  "evaluate_limited d t = evaluate t \<or> evaluate_limited d t = Inl RecursionError"
proof (induction t arbitrary: d)
  case (Leaf tok)
  show ?case by simp
next
  case (Expr left op right)
  show ?case
  proof (cases "d = 0 \<or> d - 1 = 0")
    case True
    then show ?thesis by (cases left; cases right) (auto split: sum.splits)
  next
    case False
    have l: "(case left of Expr _ _ _ \<Rightarrow> evaluate_limited (d - 1) left
                | Leaf t \<Rightarrow> if d - 1 = 0 then Inl RecursionError else py_float (get_value t)) =
             operand left \<or>
             (case left of Expr _ _ _ \<Rightarrow> evaluate_limited (d - 1) left
                | Leaf t \<Rightarrow> if d - 1 = 0 then Inl RecursionError else py_float (get_value t)) =
             Inl RecursionError"
      using Expr.IH(1) [of "d - 1"] False by (cases left) (auto simp: operand_def)
    have r: "(case right of Expr _ _ _ \<Rightarrow> evaluate_limited (d - 1) right
                | Leaf t \<Rightarrow> if d - 1 = 0 then Inl RecursionError else py_float (get_value t)) =
             operand right \<or>
             (case right of Expr _ _ _ \<Rightarrow> evaluate_limited (d - 1) right
                | Leaf t \<Rightarrow> if d - 1 = 0 then Inl RecursionError else py_float (get_value t)) =
             Inl RecursionError"
      using Expr.IH(2) [of "d - 1"] False by (cases right) (auto simp: operand_def)
    from l r False show ?thesis
      by (auto simp: evaluate_Expr binary_def split: sum.splits)
  qed
qed

lemma evaluate_limited_fits: "height t + 1 \<le> d \<Longrightarrow> evaluate_limited d t = evaluate t"
proof (induction t arbitrary: d)
  case (Leaf tok)
  show ?case by simp
next
  case (Expr left op right)
  from Expr.prems have d: "d \<noteq> 0" "d - 1 \<noteq> 0"
    and hl: "height left + 1 \<le> d - 1" and hr: "height right + 1 \<le> d - 1" by simp_all
  have l: "(case left of Expr _ _ _ \<Rightarrow> evaluate_limited (d - 1) left
                | Leaf t \<Rightarrow> if d - 1 = 0 then Inl RecursionError else py_float (get_value t)) =
             operand left"
    using Expr.IH(1) [OF hl] d by (cases left) (simp_all add: operand_def)
  have r: "(case right of Expr _ _ _ \<Rightarrow> evaluate_limited (d - 1) right
                | Leaf t \<Rightarrow> if d - 1 = 0 then Inl RecursionError else py_float (get_value t)) =
             operand right"
    using Expr.IH(2) [OF hr] d by (cases right) (simp_all add: operand_def)
  show ?case
    unfolding evaluate_limited.simps l r evaluate_Expr using d
    by (simp add: binary_def split: sum.splits)
qed

lemma print_limited_fits: "height t + 1 + e \<le> d \<Longrightarrow> print_limited e d t = None"
proof (induction t arbitrary: d)
  case (Leaf tok)
  then show ?case by simp
next
  case (Expr left op right)
  from Expr.prems have "height left + 1 + e \<le> d - 1" and "height right + 1 + e \<le> d - 1"
    and "d \<noteq> 0" and "\<not> d - 1 < Suc e" by simp_all
  with Expr.IH show ?case by simp
qed

lemma print_limited_error: "print_limited e d t = Some x \<Longrightarrow> x = RecursionError"
  by (induction t arbitrary: d) (auto split: if_splits option.splits)

lemma main_limited_cases:
  "main_limited e d source = main source \<or> main_limited e d source = Inl RecursionError"
proof -
  consider "scan_limited d source = Inl RecursionError"
    | "scan_limited d source = scan source" using scan_limited_cases by blast
  then show ?thesis
  proof cases
    case 1
    then show ?thesis by (simp add: main_limited_def)
  next
    case s: 2
    show ?thesis
    proof (cases "scan source")
      case (Inl x)
      with s show ?thesis by (simp add: main_limited_def main_def)
    next
      case (Inr tokens)
      consider "parse_limited d tokens = Inl RecursionError"
        | "parse_limited d tokens = parse tokens" using parse_limited_cases by blast
      then show ?thesis
      proof cases
        case 1
        with s Inr show ?thesis by (simp add: main_limited_def)
      next
        case p: 2
        show ?thesis
        proof (cases "parse tokens")
          case (Inl x)
          with s Inr p show ?thesis by (simp add: main_limited_def main_def)
        next
          case ast: (Inr ast)
          show ?thesis
          proof (cases "print_limited e d ast")
            case (Some x)
            then have "x = RecursionError" by (rule print_limited_error)
            with s Inr p ast Some show ?thesis by (simp add: main_limited_def)
          next
            case None
            with s Inr p ast evaluate_limited_cases [of d ast] show ?thesis
              by (auto simp: main_limited_def main_def)
          qed
        qed
      qed
    qed
  qed
qed

text \<open>
  The bounds are met exactly: one pair of brackets around a number needs seven frames,
  one operator between two numbers two.
\<close>

lemma group_needs_seven_frames:
  "parse_expression_limited 6 [sym LBRACKET, num ''1'', sym RBRACKET] 0 = Inl RecursionError"
  "parse_expression_limited 7 [sym LBRACKET, num ''1'', sym RBRACKET] 0 = Inr (Leaf (num ''1''), 3)"
  "3 * bracket_depth [sym LBRACKET, num ''1'', sym RBRACKET] + 4 = 7"
  by code_simp+

lemma evaluate_needs_two_frames:
  "evaluate_limited 1 (Expr (Leaf (num ''1'')) (sym PLUS) (Leaf (num ''2''))) = Inl RecursionError"
  "evaluate_limited 2 (Expr (Leaf (num ''1'')) (sym PLUS) (Leaf (num ''2''))) = Inr (Finite False 3)"
  by (simp_all add: eval_simps round_float_one)

subsection \<open>Trailing tokens and valid inputs under the limit\<close>

lemma parse_limited_input:
  assumes "input_expression s ts t" and "3 * bracket_depth ts + 4 \<le> d"
  shows "parse_expression_limited d ts 0 = Inr (t, length ts)"
    and "hd s \<noteq> CHR ''('' \<Longrightarrow> parse_limited d ts = Inr t"
    and "parse_limited d (sym LBRACKET # ts @ [sym RBRACKET]) = Inr t"
proof -
  from assms(1) have "grammar_expression ts t" by (rule input_grammar)
  then have "parse_expression_limited d (ts @ []) 0 = Inr (t, length ts)"
    by (rule parse_expression_limited_complete) (simp_all add: starts_with_def assms(2))
  then show p: "parse_expression_limited d ts 0 = Inr (t, length ts)" by simp
  from assms(2) have d: "d \<noteq> 0" by simp
  from input_shape(3) [OF assms(1)] have ne: "ts \<noteq> []"
    and lb: "get_ttype (hd ts) = LBRACKET \<longleftrightarrow> hd s = CHR ''(''" by simp_all
  from ne have "ts ! 0 = hd ts" by (cases ts) simp_all
  with p ne lb d show "hd s \<noteq> CHR ''('' \<Longrightarrow> parse_limited d ts = Inr t"
    by (simp add: parse_limited_def)
  from p d show "parse_limited d (sym LBRACKET # ts @ [sym RBRACKET]) = Inr t"
    by (simp add: parse_limited_def butlast_append)
qed

lemma main_limited_input:
  assumes "input_expression s ts t" and "3 * bracket_depth ts + 4 \<le> d"
    and "height t + 1 + e \<le> d"
  shows "hd s \<noteq> CHR ''('' \<Longrightarrow> main_limited e d s = evaluate t"
    and "main_limited e d (''('' @ s @ '')'') = evaluate t"
    and "evaluate_limited d t = evaluate t"
proof -
  from assms(2) have d: "0 < d" by simp
  from assms(3) have "height t + 1 \<le> d" by simp
  then show ev: "evaluate_limited d t = evaluate t" by (rule evaluate_limited_fits)
  from assms(3) have pr: "print_limited e d t = None" by (rule print_limited_fits)
  from assms(1) have "scan s = Inr ts" by (rule scan_input_expression)
  with d have "scan_limited d s = Inr ts" by (simp add: scan_limited_pos)
  then show "hd s \<noteq> CHR ''('' \<Longrightarrow> main_limited e d s = evaluate t"
    using parse_limited_input(2) [OF assms(1,2)] pr ev by (simp add: main_limited_def)
  have "input_expression (''('' @ s @ '')'') (sym LBRACKET # ts @ [sym RBRACKET]) t"
    by (rule one_term, rule one_factor, rule bracketed, rule assms)
  then have "scan (''('' @ s @ '')'') = Inr (sym LBRACKET # ts @ [sym RBRACKET])"
    by (rule scan_input_expression)
  with d have "scan_limited d (''('' @ s @ '')'') = Inr (sym LBRACKET # ts @ [sym RBRACKET])"
    by (simp add: scan_limited_pos)
  then show "main_limited e d (''('' @ s @ '')'') = evaluate t"
    using parse_limited_input(3) [OF assms(1,2)] pr ev by (simp add: main_limited_def)
qed

text \<open>
  With a thousand free frames the inputs of the sections above that show what a trailing
  operator and a number beyond the floats do behave as they do without a limit.
\<close>

lemma trailing_operator_under_limit:
  "parse_expression_limited 1000 ([num ''1'', sym PLUS, num ''2''] @ [sym ASTERISK]) 0 =
     Inl IndexError"
  "parse_expression_limited 1000 ([num ''1'', sym PLUS, num ''2''] @ [sym ASTERISK, num ''3'']) 0 =
     Inr (Expr (Leaf (num ''1'')) (sym PLUS)
            (Expr (Leaf (num ''2'')) (sym ASTERISK) (Leaf (num ''3''))), 5)"
  by code_simp+

lemma overflow_under_limit:
  "main_limited 2 1000 (huge_literal @ ''+1'') = Inr (Infinity False)"
proof -
  let ?t = "Expr (Leaf (num huge_literal)) (sym PLUS) (Leaf (num ''1''))"
  have "input_factor huge_literal [num huge_literal] (Leaf (num huge_literal))"
    unfolding huge_literal_def by (rule integer) (simp_all add: is_digit_def list_all_iff)
  then have "input_expression huge_literal [num huge_literal] (Leaf (num huge_literal))"
    by (intro one_term one_factor)
  moreover have "input_term ''1'' [num ''1''] (Leaf (num ''1''))"
    by (intro one_factor integer) (simp_all add: is_digit_def)
  ultimately have "input_expression (huge_literal @ ''+'' @ ''1'')
      ([num huge_literal] @ sym PLUS # [num ''1'']) ?t"
    by (rule plus)
  then have i: "input_expression (huge_literal @ ''+1'') [num huge_literal, sym PLUS, num ''1''] ?t"
    by simp
  have h: "hd (huge_literal @ ''+1'') \<noteq> CHR ''(''" by (simp add: huge_literal_def)
  have b: "3 * bracket_depth [num huge_literal, sym PLUS, num ''1''] + 4 \<le> 1000"
    by (simp add: bracket_depth_def)
  have "height ?t + 1 + 2 \<le> 1000" by simp
  from main_limited_input(1) [OF i b this h]
  have "main_limited 2 1000 (huge_literal @ ''+1'') = evaluate ?t" .
  also have "\<dots> = Inr (Infinity False)"
    by (simp add: evaluate_Expr operand_def binary_def py_float_huge_literal py_float_1)
  finally show ?thesis .
qed

lemma bracket_depth_1_plus_2: "bracket_depth [num ''1'', sym PLUS, num ''2''] = 0"
  by (simp add: bracket_depth_def)

text \<open>
  C10, as amended. Trailing tokens are ignored: when the token list begins with an
  expression of the grammar whose brackets are nested no deeper than the free frames
  allow (three frames for each level and four more), and goes on with at least one more
  token whose kind is none of \<open>PLUS\<close>, \<open>MINUS\<close>, \<open>ASTERISK\<close>, \<open>FSLASH\<close>, then
  \<open>parse_expression(tokens, 0)\<close> returns the tree of the leading expression and the index
  just behind it; and so do lines 183-188 of \<open>main\<close> when the list does not begin with a
  left bracket. The length of the list is not bounded: a loop takes no frame.
\<close>

theorem trailing_tokens_ignored:
  assumes "grammar_expression ts t"
    and "rest \<noteq> []"
    and "get_ttype (hd rest) \<notin> {PLUS, MINUS, ASTERISK, FSLASH}"
    and "3 * bracket_depth ts + 4 \<le> d"
  shows "parse_expression_limited d (ts @ rest) 0 = Inr (t, length ts) \<and>
         (get_ttype (hd ts) \<noteq> LBRACKET \<longrightarrow> parse_limited d (ts @ rest) = Inr t)"
proof -
  from assms(3) have "\<not> starts_with {PLUS, MINUS, ASTERISK, FSLASH} rest"
    by (simp add: starts_with_def)
  with assms(1) have p: "parse_expression_limited d (ts @ rest) 0 = Inr (t, length ts)"
    using assms(4) by (rule parse_expression_limited_complete)
  from assms(1) have "ts \<noteq> []" by (rule grammar_nonempty)
  then have "(ts @ rest) ! 0 = hd ts" by (cases ts) simp_all
  moreover from assms(4) have "d \<noteq> 0" by simp
  ultimately show ?thesis using p \<open>ts \<noteq> []\<close> by (simp add: parse_limited_def)
qed

theorem trailing_tokens_ignored_witness:
  "grammar_expression [num ''1'', sym PLUS, num ''2'']
     (Expr (Leaf (num ''1'')) (sym PLUS) (Leaf (num ''2''))) \<and>
   [sym RBRACKET, num ''3''] \<noteq> [] \<and>
   get_ttype (hd [sym RBRACKET, num ''3'']) \<notin> {PLUS, MINUS, ASTERISK, FSLASH} \<and>
   3 * bracket_depth [num ''1'', sym PLUS, num ''2''] + 4 \<le> 1000 \<and>
   get_ttype (hd [num ''1'', sym PLUS, num ''2'']) \<noteq> LBRACKET \<and>
   scan ''1+2)3'' = Inr [num ''1'', sym PLUS, num ''2'', sym RBRACKET, num ''3''] \<and>
   parse_expression_limited 1000 [num ''1'', sym PLUS, num ''2'', sym RBRACKET, num ''3''] 0 =
     Inr (Expr (Leaf (num ''1'')) (sym PLUS) (Leaf (num ''2'')), 3) \<and>
   parse_limited 1000 [num ''1'', sym PLUS, num ''2'', sym RBRACKET, num ''3''] =
     Inr (Expr (Leaf (num ''1'')) (sym PLUS) (Leaf (num ''2'')))"
  using trailing_tokens_ignored [OF grammar_1_plus_2, of "[sym RBRACKET, num ''3'']" 1000]
    grammar_1_plus_2 scan_trailing bracket_depth_1_plus_2
  by simp

text \<open>
  C2, as amended. For every valid input (an expression of the grammar over digits, at
  most one point per number, the four operators and brackets, no blanks) that contains at
  least one operator, whose brackets are nested no deeper than the free frames allow and
  whose tree is no higher (one frame for each level, one more, and those of \<open>Enum\<close> for
  line 189): the scanner returns its tokens and \<open>parse_expression\<close> its tree; if the input
  does not begin with a bracket, \<open>main\<close> on it returns what \<open>evaluate\<close> returns on the
  tree, and so does \<open>main\<close> on the input wrapped in one more pair of brackets; and
  \<open>evaluate\<close> on the tree returns a float, or raises \<open>ZeroDivisionError\<close>, in which case a
  division by zero is performed. Nothing is said about the float, which need not be
  finite, about an input that is a single number or that begins with a bracket which the
  last character does not close, or about an input beyond these bounds. Termination is
  part of the statement: every function of the model is total, the parser by the fuel
  that is always enough.
\<close>

theorem pipeline_returns:
  assumes "input_expression s ts t" and "set s \<inter> operator_chars \<noteq> {}"
    and "3 * bracket_depth ts + 4 \<le> d" and "height t + 1 + e \<le> d"
  shows "scan_limited d s = Inr ts \<and> parse_expression_limited d ts 0 = Inr (t, length ts) \<and>
         (hd s \<noteq> CHR ''('' \<longrightarrow>
            parse_limited d ts = Inr t \<and> main_limited e d s = evaluate_limited d t) \<and>
         main_limited e d (''('' @ s @ '')'') = evaluate_limited d t \<and>
         ((\<exists>v. evaluate_limited d t = Inr v) \<or>
          (evaluate_limited d t = Inl ZeroDivisionError \<and> divides_by_zero t))"
proof -
  from assms(3) have "0 < d" by simp
  then have "scan_limited d s = scan s" by (rule scan_limited_pos)
  with scan_input_expression [OF assms(1)] have "scan_limited d s = Inr ts" by simp
  with parse_limited_input [OF assms(1,3)] main_limited_input [OF assms(1,3,4)]
    evaluate_input_expression [OF assms(1,2)]
  show ?thesis by simp
qed

theorem pipeline_returns_witness:
  "input_expression ''1+2'' [num ''1'', sym PLUS, num ''2'']
     (Expr (Leaf (num ''1'')) (sym PLUS) (Leaf (num ''2''))) \<and>
   set ''1+2'' \<inter> operator_chars \<noteq> {} \<and>
   3 * bracket_depth [num ''1'', sym PLUS, num ''2''] + 4 \<le> 1000 \<and>
   height (Expr (Leaf (num ''1'')) (sym PLUS) (Leaf (num ''2''))) + 1 + 2 \<le> 1000 \<and>
   hd ''1+2'' \<noteq> CHR ''('' \<and>
   scan_limited 1000 ''1+2'' = Inr [num ''1'', sym PLUS, num ''2''] \<and>
   parse_limited 1000 [num ''1'', sym PLUS, num ''2''] =
     Inr (Expr (Leaf (num ''1'')) (sym PLUS) (Leaf (num ''2''))) \<and>
   main_limited 2 1000 ''1+2'' = Inr (Finite False 3) \<and>
   main_limited 2 1000 ''(1+2)'' = Inr (Finite False 3)"
proof -
  let ?t = "Expr (Leaf (num ''1'')) (sym PLUS) (Leaf (num ''2''))"
  have ops: "set ''1+2'' \<inter> operator_chars \<noteq> {}" by (simp add: operator_chars_def)
  have b: "3 * bracket_depth [num ''1'', sym PLUS, num ''2''] + 4 \<le> 1000"
    unfolding bracket_depth_1_plus_2 by simp
  have h: "height ?t + 1 + 2 \<le> 1000" by simp
  have "height ?t + 1 \<le> 1000" by simp
  then have "evaluate_limited 1000 ?t = evaluate ?t" by (rule evaluate_limited_fits)
  then have e: "evaluate_limited 1000 ?t = Inr (Finite False 3)"
    by (simp only: evaluate_1_plus_2)
  from pipeline_returns [OF input_1_plus_2 ops b h] input_1_plus_2 ops b h e
  show ?thesis by simp
qed

end
